theory Spec2Isabelle
  imports Main "HOL-Library.Word"
begin

section \<open>The multi-flow device driver (multi-flow-service.c)\<close>

text \<open>
  The model follows one minor of the driver: its \<open>object_state\<close>, its entries of the
  module parameters \<open>numBytes\<close> and \<open>numReaders\<close>, and the works it has scheduled on the
  system work queue.

  A call runs without another thread changing the object meanwhile. What the environment
  decides is passed in: the outcomes of the successive \<open>spin_trylock\<close> attempts of a call
  (\<open>trylocks\<close>), whether \<open>kzalloc\<close> succeeds, and the user memory behind the pointer
  \<open>buff\<close> (a list of the bytes that can be accessed there; an access beyond it faults).
  A non-blocking call makes one attempt, the first entry of \<open>trylocks\<close>; with no entry
  the lock is not obtained. For a loop with a deadline, \<open>trylocks\<close> holds one entry for
  each iteration begun before the deadline: when it is used up, the test \<open>diff < 0\<close>
  succeeds. Locks themselves are not part of the state.

  \<open>int\<close> variables are integers, \<open>size_t\<close> lengths are naturals (the VFS passes at most
  \<open>MAX_RW_COUNT < 2 ^ 31\<close>), and the two \<open>unsigned int\<close> counters are 32-bit words, whose
  additions and subtractions wrap around. Where the source compares an \<open>int\<close> with a
  \<open>size_t\<close>, the \<open>int\<close> is converted to unsigned: a negative one is larger than any length.
\<close>

subsection \<open>Data\<close>

definition OBJECT_MAX_SIZE :: int where
  "OBJECT_MAX_SIZE = 4096"

definition NUL :: char where
  "NUL = CHR 0x00"

text \<open>
  \<open>stream_content\<close> is the memory at the address of the page of the object: the page is
  the indices below 4096, an index from 4096 on is memory behind the page.
  \<open>__get_free_page\<close> does not clear the page.
\<close>

record packed_work =
  copiedBytes :: int
  buffer :: "char list"

record object_state =
  off_read :: int
  off_write :: int
  stream_content :: "nat \<Rightarrow> char"
  priority :: bool
  blocking :: bool
  timeout :: int

record minor_state = object_state +
  numReaders :: "32 word"
  numBytes :: "32 word"
  works :: "packed_work list"

text \<open>The state of a minor after \<open>init_module\<close>, on a page with the contents \<open>page\<close>.\<close>

definition init_module :: "(nat \<Rightarrow> char) \<Rightarrow> minor_state" where
  "init_module page =
     \<lparr>off_read = 0, off_write = 0, stream_content = page, priority = True,
      blocking = True, timeout = 200, numReaders = 0, numBytes = 0, works = []\<rparr>"

subsection \<open>Kernel primitives\<close>

text \<open>
  \<open>copy_from_user (to, from, n)\<close> copies as many of the \<open>n\<close> bytes as can be read,
  clears the rest of the destination, and returns the number of bytes not copied.
\<close>

definition copy_from_user ::
  "(nat \<Rightarrow> char) \<Rightarrow> nat \<Rightarrow> char list \<Rightarrow> nat \<Rightarrow> (nat \<Rightarrow> char) \<times> nat" where
  "copy_from_user mem to from n =
     (let k = min n (length from)
      in (\<lambda>i. if to \<le> i \<and> i < to + k then from ! (i - to)
               else if to + k \<le> i \<and> i < to + n then NUL
               else mem i,
          n - k))"

text \<open>
  \<open>copy_to_user (to, from, n)\<close>: the user buffer \<open>ubuf\<close> is the writable memory at the
  pointer the caller passed, \<open>to\<close> an offset into it. Returns the number of bytes not
  copied.
\<close>

definition copy_to_user ::
  "char list \<Rightarrow> nat \<Rightarrow> (nat \<Rightarrow> char) \<Rightarrow> nat \<Rightarrow> nat \<Rightarrow> char list \<times> nat" where
  "copy_to_user ubuf to mem from n =
     (let k = min n (length ubuf - to)
      in (take to ubuf @ map mem [from ..< from + k] @ drop (to + k) ubuf, n - k))"

text \<open>
  \<open>strcpy (dest, src)\<close> copies the bytes of \<open>src\<close> before its first zero byte, and
  then a zero byte. Every \<open>src\<close> the driver passes holds a zero byte.
\<close>

definition strlen :: "char list \<Rightarrow> nat" where
  "strlen src = length (takeWhile (\<lambda>c. c \<noteq> NUL) src)"

definition strcpy :: "(nat \<Rightarrow> char) \<Rightarrow> nat \<Rightarrow> char list \<Rightarrow> (nat \<Rightarrow> char)" where
  "strcpy mem dest src =
     (\<lambda>i. if dest \<le> i \<and> i < dest + strlen src then src ! (i - dest)
          else if i = dest + strlen src then NUL
          else mem i)"

text \<open>
  \<open>wait_event_timeout\<close>: with nobody changing the object, a condition that is false stays
  false until the timeout, and the result is 0; a condition that holds gives a positive
  result at once.
\<close>

definition wait_event_timeout :: "bool \<Rightarrow> int" where
  "wait_event_timeout condition = (if condition then 1 else 0)"

subsection \<open>dev_write, high priority\<close>

text \<open>
  The test \<open>(OBJECT_MAX_SIZE - off) < len\<close> of the writes and the reads, \<open>off\<close> an
  \<open>int\<close> and \<open>len\<close> a \<open>size_t\<close>: a negative difference is converted to a value above
  every length.
\<close>

definition passes_end :: "int \<Rightarrow> nat \<Rightarrow> bool" where
  "passes_end off len \<longleftrightarrow> 0 \<le> OBJECT_MAX_SIZE - off \<and> OBJECT_MAX_SIZE - off < int len"

text \<open>
  The test \<open>numBytes[minor] + len >= OBJECT_MAX_SIZE\<close>.
\<close>

definition file_is_full :: "minor_state \<Rightarrow> nat \<Rightarrow> bool" where
  "file_is_full s len \<longleftrightarrow> OBJECT_MAX_SIZE \<le> int (unat (numBytes s) + len)"

text \<open>
  The copy under the lock (the same text in the blocking and the non-blocking branch):
  one \<open>copy_from_user\<close>, or two when the write passes the end of the page.
\<close>

definition write_copy :: "minor_state \<Rightarrow> char list \<Rightarrow> nat \<Rightarrow> minor_state \<times> int" where
  "write_copy s buff len0 =
     (let wraps = passes_end (off_write s) len0;
          len_2nd = (if wraps then int len0 + off_write s - OBJECT_MAX_SIZE else 0);
          len = (if wraps then nat (OBJECT_MAX_SIZE - off_write s) else len0);
          (mem1, ret) = copy_from_user (stream_content s) (nat (off_write s)) buff len;
          result = int (len - ret)
      in if 0 < len_2nd \<and> result = int len then
           (let (mem2, ret2) = copy_from_user mem1 0 (drop (nat result) buff) (nat len_2nd)
            in (s\<lparr>off_write := len_2nd - int ret2, stream_content := mem2\<rparr>,
                result + (len_2nd - int ret2)))
         else (s\<lparr>off_write := off_write s + result, stream_content := mem1\<rparr>, result))"

text \<open>The label \<open>exit_write\<close>: the counter grows by a positive result.\<close>

definition exit_write :: "minor_state \<times> int \<Rightarrow> minor_state \<times> int" where
  "exit_write sr =
     (case sr of (s, result) \<Rightarrow>
        (if 0 < result then s\<lparr>numBytes := numBytes s + word_of_int result\<rparr> else s, result))"

text \<open>What a high-priority write does once it holds the lock.\<close>

definition write_locked :: "minor_state \<Rightarrow> char list \<Rightarrow> nat \<Rightarrow> minor_state \<times> int" where
  "write_locked s buff len =
     (if file_is_full s len then (s, 0) else exit_write (write_copy s buff len))"

text \<open>
  Non-blocking: one attempt at the lock; without the lock the result is 0.
\<close>

definition dev_write_high_nonblocking ::
  "bool list \<Rightarrow> minor_state \<Rightarrow> char list \<Rightarrow> nat \<Rightarrow> minor_state \<times> int" where
  "dev_write_high_nonblocking trylocks s buff len =
     (case trylocks of
        [] \<Rightarrow> (s, 0)
      | got # _ \<Rightarrow> if got then write_locked s buff len else (s, 0))"

text \<open>
  Blocking: \<open>diff\<close> is declared \<open>u64\<close> in this branch, so \<open>diff < 0\<close> never holds and the
  loop ends only when an attempt at the lock succeeds. \<open>None\<close>: still spinning after all
  the attempts of \<open>trylocks\<close>.
\<close>

fun dev_write_high_blocking ::
  "bool list \<Rightarrow> minor_state \<Rightarrow> char list \<Rightarrow> nat \<Rightarrow> (minor_state \<times> int) option" where
  "dev_write_high_blocking [] s buff len = None"
| "dev_write_high_blocking (got # rest) s buff len =
     (if got then Some (write_locked s buff len)
      else dev_write_high_blocking rest s buff len)"

subsection \<open>dev_write, low priority\<close>

text \<open>
  The buffer of the task: \<open>len + 1\<close> bytes from \<open>kzalloc\<close>, the bytes copied from the
  user, and the terminator stored at \<open>buffer[len - result]\<close>.
\<close>

definition task_buffer :: "char list \<Rightarrow> nat \<Rightarrow> char list" where
  "task_buffer buff len =
     (let k = min len (length buff)
      in (take k buff @ replicate (Suc len - k) NUL)[k := NUL])"

text \<open>
  Whether the write reserves its bytes: in the blocking branch the loop runs until the
  deadline (\<open>diff\<close> is a \<open>long long int\<close> here) or the first attempt that gets the lock.
\<close>

fun low_blocking_reserves :: "bool list \<Rightarrow> minor_state \<Rightarrow> nat \<Rightarrow> bool" where
  "low_blocking_reserves [] s len = False"
| "low_blocking_reserves (got # rest) s len =
     (if got then \<not> file_is_full s len else low_blocking_reserves rest s len)"

definition low_nonblocking_reserves :: "bool list \<Rightarrow> minor_state \<Rightarrow> nat \<Rightarrow> bool" where
  "low_nonblocking_reserves trylocks s len =
     (case trylocks of [] \<Rightarrow> False | got # _ \<Rightarrow> got \<and> \<not> file_is_full s len)"

text \<open>
  \<open>result\<close> first holds what \<open>copy_from_user\<close> returned, the number of bytes not copied;
  the label \<open>dealloc_task\<close> returns it as it is.
\<close>

definition dev_write_low ::
  "bool \<Rightarrow> bool list \<Rightarrow> minor_state \<Rightarrow> char list \<Rightarrow> nat \<Rightarrow> minor_state \<times> int" where
  "dev_write_low kzalloc_ok trylocks s buff len =
     (if \<not> kzalloc_ok then (s, - 1)
      else
        (let result = int (len - min len (length buff));
             the_task = \<lparr>copiedBytes = int len - result, buffer = task_buffer buff len\<rparr>;
             reserves = (if blocking s then low_blocking_reserves trylocks s len
                         else low_nonblocking_reserves trylocks s len)
         in if reserves then
              (s\<lparr>numBytes := numBytes s + word_of_int (int len - result),
                 works := works s @ [the_task]\<rparr>,
               int len - result)
            else (s, result)))"

definition dev_write ::
  "bool \<Rightarrow> bool list \<Rightarrow> minor_state \<Rightarrow> char list \<Rightarrow> nat \<Rightarrow> (minor_state \<times> int) option" where
  "dev_write kzalloc_ok trylocks s buff len =
     (if priority s then
        (if blocking s then dev_write_high_blocking trylocks s buff len
         else Some (dev_write_high_nonblocking trylocks s buff len))
      else Some (dev_write_low kzalloc_ok trylocks s buff len))"

subsection \<open>delayed_work\<close>

text \<open>
  The worker of a low-priority write. \<open>None\<close> is a kernel fault: in the branch of two
  writes \<open>buff1\<close> and \<open>buff2\<close> come from \<open>kzalloc\<close> and are used unchecked.
\<close>

definition delayed_work :: "bool \<Rightarrow> packed_work \<Rightarrow> minor_state \<Rightarrow> minor_state option" where
  "delayed_work kzalloc_ok the_work s =
     (let len = copiedBytes the_work
      in if len \<le> OBJECT_MAX_SIZE - off_write s then
           Some (s\<lparr>off_write := off_write s + len,
                   stream_content :=
                     strcpy (stream_content s) (nat (off_write s)) (buffer the_work)\<rparr>)
         else
           (let len2 = len + off_write s - OBJECT_MAX_SIZE;
                len1 = OBJECT_MAX_SIZE - off_write s
            in if \<not> kzalloc_ok \<or> len1 < 0 then None
               else
                 (let buff1 = take (nat len1) (buffer the_work) @ [NUL];
                      buff2 = take (nat len2) (drop (nat len1) (buffer the_work)) @ [NUL];
                      mem1 = strcpy (stream_content s) (nat (off_write s)) buff1
                  in if 0 < len2 then
                       Some (s\<lparr>off_write := len2, stream_content := strcpy mem1 0 buff2\<rparr>)
                     else
                       Some (s\<lparr>off_write := off_write s + len1, stream_content := mem1\<rparr>))))"

subsection \<open>dev_read\<close>

text \<open>
  The copy under the lock. \<open>len\<close>, \<open>len_2nd\<close> and \<open>result\<close> are variables of the call:
  the blocking loop carries them from one iteration to the next.
\<close>

definition read_copy ::
  "minor_state \<Rightarrow> char list \<Rightarrow> nat \<Rightarrow> int \<Rightarrow> int
     \<Rightarrow> minor_state \<times> char list \<times> nat \<times> int \<times> int" where
  "read_copy s ubuf len0 len_2nd0 result0 =
     (let wraps = passes_end (off_read s) len0;
          len_2nd = (if wraps then int len0 + off_read s - OBJECT_MAX_SIZE else len_2nd0);
          len = (if wraps then nat (OBJECT_MAX_SIZE - off_read s) else len0);
          (ubuf1, ret) = copy_to_user ubuf 0 (stream_content s) (nat (off_read s)) len;
          result = result0 + int (len - ret)
      in if 0 < len_2nd \<and> result = int len then
           (let (ubuf2, ret2) =
                  copy_to_user ubuf1 (nat result) (stream_content s) 0 (nat len_2nd)
            in (s\<lparr>off_read := len_2nd - int ret2\<rparr>, ubuf2, len, len_2nd,
                result + (len_2nd - int ret2)))
         else (s\<lparr>off_read := off_read s + int (len - ret)\<rparr>, ubuf1, len, len_2nd, result))"

text \<open>The loop of the blocking branch; the result is the state, the user buffer and \<open>result\<close>.\<close>

fun read_blocking_loop ::
  "bool list \<Rightarrow> minor_state \<Rightarrow> char list \<Rightarrow> nat \<Rightarrow> int \<Rightarrow> int
     \<Rightarrow> minor_state \<times> char list \<times> int" where
  "read_blocking_loop [] s ubuf len len_2nd result = (s, ubuf, result)"
| "read_blocking_loop (got # rest) s ubuf len len_2nd result =
     (if off_write s - off_read s \<le> 0 \<and>
         wait_event_timeout (0 < off_write s - off_read s \<and> 0 < unat (numBytes s)) = 0
      then (s, ubuf, result)
      else if \<not> got then read_blocking_loop rest s ubuf len len_2nd result
      else if off_write s - off_read s = 0
        then read_blocking_loop rest s ubuf len len_2nd result
      else
        (case read_copy s ubuf len len_2nd result of
           (s', ubuf', len', len_2nd', result') \<Rightarrow>
             if result' = int len' then (s', ubuf', result')
             else read_blocking_loop rest s' ubuf' len' len_2nd' result'))"

definition read_nonblocking_body ::
  "bool list \<Rightarrow> minor_state \<Rightarrow> char list \<Rightarrow> nat \<Rightarrow> minor_state \<times> char list \<times> int" where
  "read_nonblocking_body trylocks s ubuf len =
     (case trylocks of
        [] \<Rightarrow> (s, ubuf, 0)
      | got # _ \<Rightarrow>
          if \<not> got then (s, ubuf, 0)
          else if off_write s - off_read s = 0 then (s, ubuf, 0)
          else (case read_copy s ubuf len 0 0 of
                  (s', ubuf', len', len_2nd', result') \<Rightarrow> (s', ubuf', result')))"

text \<open>The two statements before each \<open>return result\<close> of \<open>dev_read\<close>.\<close>

definition read_exit :: "minor_state \<times> char list \<times> int \<Rightarrow> minor_state \<times> char list \<times> int" where
  "read_exit sur =
     (case sur of (s, ubuf, result) \<Rightarrow>
        (let s1 = s\<lparr>numReaders := numReaders s - 1\<rparr>
         in (if 0 < result then s1\<lparr>numBytes := numBytes s1 - word_of_int result\<rparr> else s1,
             ubuf, result)))"

definition dev_read ::
  "bool list \<Rightarrow> minor_state \<Rightarrow> char list \<Rightarrow> nat \<Rightarrow> minor_state \<times> char list \<times> int" where
  "dev_read trylocks s ubuf len =
     (let s1 = s\<lparr>numReaders := numReaders s + 1\<rparr>
      in if blocking s1 then read_exit (read_blocking_loop trylocks s1 ubuf len 0 0)
         else read_exit (read_nonblocking_body trylocks s1 ubuf len))"



subsection \<open>dev_ioctl\<close>

text \<open>
  The commands (\<open>unsigned int\<close>) are \<open>_IOW('a', nr, int * )\<close> of the Linux headers, on a
  machine with pointers of 8 bytes. \<open>param\<close> is the \<open>int\<close> behind the user's pointer, \<open>None\<close> when it
  cannot be read.
\<close>

definition IOWR_TIMEOUT :: "32 word" where
  "IOWR_TIMEOUT = 0x40086161"

definition IOWR_PRIORITYSTATE :: "32 word" where
  "IOWR_PRIORITYSTATE = 0x40086162"

definition IOWR_BLOCKINGSTATE :: "32 word" where
  "IOWR_BLOCKINGSTATE = 0x40086163"

definition dev_ioctl :: "minor_state \<Rightarrow> 32 word \<Rightarrow> int option \<Rightarrow> minor_state \<times> int" where
  "dev_ioctl s command param =
     (case param of
        None \<Rightarrow> (s, - 1)
      | Some v \<Rightarrow>
          if command = IOWR_PRIORITYSTATE then
            (if v = 0 then (s\<lparr>priority := False\<rparr>, 0)
             else if v = 1 then (s\<lparr>priority := True\<rparr>, 0)
             else (s, - 1))
          else if command = IOWR_BLOCKINGSTATE then
            (if v = 0 then (s\<lparr>blocking := False\<rparr>, 0)
             else if v = 1 then (s\<lparr>blocking := True\<rparr>, 0)
             else (s, - 1))
          else if command = IOWR_TIMEOUT then
            (if 0 < v then (s\<lparr>timeout := v\<rparr>, 0) else (s, - 1))
          else (s, - 1))"


subsection \<open>The ring invariant and the states it is proved for\<close>

text \<open>
  The relation between the counter and the two offsets: both offsets within the page or
  at its end, fewer than \<open>OBJECT_MAX_SIZE\<close> bytes counted, and the count equal to the
  distance from the read offset to the write offset around the page.
\<close>

definition ring_inv :: "minor_state \<Rightarrow> bool" where
  "ring_inv s \<longleftrightarrow>
     0 \<le> off_read s \<and> off_read s \<le> OBJECT_MAX_SIZE \<and>
     0 \<le> off_write s \<and> off_write s \<le> OBJECT_MAX_SIZE \<and>
     int (unat (numBytes s)) < OBJECT_MAX_SIZE \<and>
     int (unat (numBytes s)) = (off_write s - off_read s) mod OBJECT_MAX_SIZE"

text \<open>
  The states a minor reaches from \<open>init_module\<close> by \<open>dev_ioctl\<close>, by high-priority
  writes, by low-priority writes taken together with the run of their \<open>delayed_work\<close>,
  and by reads that ask for no more than \<open>numBytes\<close> (in blocking mode into a user
  buffer that takes the whole length).
\<close>

inductive reach :: "minor_state \<Rightarrow> bool" where
  init: "reach (init_module page)"
| ioctl: "reach s \<Longrightarrow> dev_ioctl s command param = (s', r) \<Longrightarrow> reach s'"
| write_high:
    "reach s \<Longrightarrow> priority s \<Longrightarrow> dev_write kz trylocks s buff len = Some (s', r) \<Longrightarrow> reach s'"
| write_low_commit:
    "reach s \<Longrightarrow> \<not> priority s \<Longrightarrow> dev_write kz trylocks s buff len = Some (s1, r) \<Longrightarrow>
     works s1 \<noteq> works s \<Longrightarrow> delayed_work kz' (last (works s1)) s1 = Some s' \<Longrightarrow> reach s'"
| read:
    "reach s \<Longrightarrow> len \<le> unat (numBytes s) \<Longrightarrow> (blocking s \<longrightarrow> len \<le> length ubuf) \<Longrightarrow>
     dev_read trylocks s ubuf len = (s', ubuf', r) \<Longrightarrow> reach s'"

subsection \<open>String copy, in the words of the specification\<close>

text \<open>
  The bytes of a payload before its first zero byte go to the destination, a terminating
  zero byte follows them, and no other byte of the memory changes.
\<close>

definition bytes_before_zero :: "char list \<Rightarrow> char list" where
  "bytes_before_zero payload = takeWhile (\<lambda>c. c \<noteq> NUL) payload"

definition string_copy :: "(nat \<Rightarrow> char) \<Rightarrow> nat \<Rightarrow> char list \<Rightarrow> (nat \<Rightarrow> char)" where
  "string_copy mem dest payload =
     (\<lambda>i. if dest \<le> i \<and> i < dest + length (bytes_before_zero payload)
            then bytes_before_zero payload ! (i - dest)
          else if i = dest + length (bytes_before_zero payload) then NUL
          else mem i)"

subsection \<open>States and memory used in the examples\<close>

text \<open>
  A page of zero bytes; user data of a given length; the minor after \<open>init_module\<close>
  switched to low priority or to non-blocking mode by \<open>dev_ioctl\<close>; the states after
  writing "ciao" to them; a low-priority minor whose offsets stand two bytes before the
  end of the page.
\<close>

definition blank_page :: "nat \<Rightarrow> char" where
  "blank_page i = NUL"

definition filler :: "nat \<Rightarrow> char list" where
  "filler n = replicate n (CHR ''x'')"

definition low_state :: minor_state where
  "low_state = fst (dev_ioctl (init_module blank_page) IOWR_PRIORITYSTATE (Some 0))"

definition nonblocking_state :: minor_state where
  "nonblocking_state = fst (dev_ioctl (init_module blank_page) IOWR_BLOCKINGSTATE (Some 0))"

definition after_ciao :: minor_state where
  "after_ciao = fst (the (dev_write True [True] (init_module blank_page) ''ciao'' 4))"

definition low_after_ciao :: minor_state where
  "low_after_ciao = fst (the (dev_write True [True] low_state ''ciao'' 4))"

definition both_flows :: minor_state where
  "both_flows =
     fst (the (dev_write True [True]
                 (fst (dev_ioctl after_ciao IOWR_PRIORITYSTATE (Some 0))) ''ciao'' 4))"

definition drained :: minor_state where
  "drained = fst (dev_read [True] after_ciao (replicate 4 NUL) 4)"

definition low_state_at_end :: minor_state where
  "low_state_at_end = low_state\<lparr>off_read := 4094, off_write := 4094\<rparr>"

definition zero_split_payload :: "char list" where
  "zero_split_payload = [CHR ''a'', NUL, CHR ''b'']"

definition low_at_end_after_write :: minor_state where
  "low_at_end_after_write = fst (the (dev_write True [True] low_state_at_end zero_split_payload 3))"

section \<open>Properties\<close>

subsection \<open>The reader counter\<close>






subsection \<open>dev_ioctl\<close>

text \<open>
  Claim C9. For the command \<open>IOWR_TIMEOUT\<close> with a value that could be read: a positive
  value becomes the timeout of the object and the call returns 0; a value that is not
  positive makes the call return -1 and leaves the whole state, so the timeout, the
  priority and the blocking mode, as it was.
\<close>

theorem dev_ioctl_timeout:
  "(0 < v \<longrightarrow> dev_ioctl s IOWR_TIMEOUT (Some v) = (s\<lparr>timeout := v\<rparr>, 0)) \<and>
   (v \<le> 0 \<longrightarrow> dev_ioctl s IOWR_TIMEOUT (Some v) = (s, - 1))"
  by (simp add: dev_ioctl_def IOWR_TIMEOUT_def IOWR_PRIORITYSTATE_def IOWR_BLOCKINGSTATE_def)

theorem dev_ioctl_timeout_witness:
  "(0::int) < 300 \<and>
   dev_ioctl (init_module blank_page) IOWR_TIMEOUT (Some 300) =
     ((init_module blank_page)\<lparr>timeout := 300\<rparr>, 0) \<and>
   (0::int) \<le> 0 \<and>
   dev_ioctl (init_module blank_page) IOWR_TIMEOUT (Some 0) = (init_module blank_page, - 1)"
  using dev_ioctl_timeout [of 300 "init_module blank_page"]
    dev_ioctl_timeout [of 0 "init_module blank_page"]
  by simp

subsection \<open>A low-priority write whose allocation fails\<close>

text \<open>
  Claim C8, as amended. When \<open>kzalloc\<close> fails in a low-priority write, the write returns
  -1, and not 0; nothing of the state of the minor has changed, so the session can go on.
  The theorem after this one evaluates the return value on the payload "ciao".
\<close>

theorem low_write_kzalloc_failure:
  "\<not> priority s \<Longrightarrow> dev_write False trylocks s buff len = Some (s, - 1)"
  by (simp add: dev_write_def dev_write_low_def)

theorem low_write_kzalloc_failure_counterexample:
  "snd (the (dev_write False [True] ((init_module blank_page)\<lparr>priority := False\<rparr>) ''ciao'' 4)) \<noteq> 0"
  by (simp add: dev_write_def dev_write_low_def init_module_def)

theorem low_write_kzalloc_failure_witness:
  "\<not> priority ((init_module blank_page)\<lparr>priority := False\<rparr>) \<and>
   dev_write False [True] ((init_module blank_page)\<lparr>priority := False\<rparr>) ''ciao'' 4 =
     Some ((init_module blank_page)\<lparr>priority := False\<rparr>, - 1)"
  using low_write_kzalloc_failure [of "(init_module blank_page)\<lparr>priority := False\<rparr>" "[True]" "''ciao''" 4]
  by simp

subsection \<open>The copies under the lock, case by case\<close>

lemma file_is_full_iff: "file_is_full s len \<longleftrightarrow> 4096 \<le> unat (numBytes s) + len"
  unfolding file_is_full_def OBJECT_MAX_SIZE_def by linarith

lemma copy_from_user_ret:
  "snd (copy_from_user mem to from n) = n - min n (length from)"
  by (simp add: copy_from_user_def Let_def)

lemma write_copy_fits:
  assumes "\<not> passes_end (off_write s) len"
  shows "write_copy s buff len =
     (s\<lparr>off_write := off_write s + int (min len (length buff)),
        stream_content := fst (copy_from_user (stream_content s) (nat (off_write s)) buff len)\<rparr>,
      int (min len (length buff)))"
  using assms by (simp add: write_copy_def Let_def case_prod_beta copy_from_user_ret)

lemma write_copy_wraps_short:
  assumes "passes_end (off_write s) len" and "length buff < nat (4096 - off_write s)"
  shows "write_copy s buff len =
     (s\<lparr>off_write := off_write s + int (length buff),
        stream_content := fst (copy_from_user (stream_content s) (nat (off_write s)) buff
                                 (nat (4096 - off_write s)))\<rparr>,
      int (length buff))"
  using assms by (simp add: write_copy_def Let_def case_prod_beta copy_from_user_ret OBJECT_MAX_SIZE_def)

lemma write_copy_wraps:
  assumes "passes_end (off_write s) len" and "nat (4096 - off_write s) \<le> length buff"
  shows "write_copy s buff len =
     (s\<lparr>off_write := int (min (len - nat (4096 - off_write s))
                              (length buff - nat (4096 - off_write s))),
        stream_content :=
          fst (copy_from_user
                 (fst (copy_from_user (stream_content s) (nat (off_write s)) buff
                         (nat (4096 - off_write s))))
                 0 (drop (nat (4096 - off_write s)) buff) (len - nat (4096 - off_write s)))\<rparr>,
      4096 - off_write s + int (min (len - nat (4096 - off_write s))
                              (length buff - nat (4096 - off_write s))))"
proof -
  from assms(1) have a: "0 \<le> 4096 - off_write s" "4096 - off_write s < int len"
    by (simp_all add: passes_end_def OBJECT_MAX_SIZE_def)
  then have b: "nat (int len + off_write s - 4096) = len - nat (4096 - off_write s)"
    and c: "0 < int len + off_write s - 4096"
    by linarith+
  from assms(2) have d: "min (nat (4096 - off_write s)) (length buff) = nat (4096 - off_write s)"
    by simp
  show ?thesis
    using assms(1) a c
    by (simp add: write_copy_def Let_def case_prod_beta copy_from_user_ret OBJECT_MAX_SIZE_def b d)
qed

lemma write_copy_shape:
  assumes "0 \<le> off_write s" and "off_write s \<le> 4096" and "len < 4096"
  shows "\<exists>k w m. write_copy s buff len = (s\<lparr>off_write := w, stream_content := m\<rparr>, int k) \<and>
           k \<le> len \<and> 0 \<le> w \<and> w \<le> 4096 \<and>
           (w = off_write s + int k \<or> w = off_write s + int k - 4096)"
proof (cases "passes_end (off_write s) len")
  case False
  then have "int len \<le> 4096 - off_write s"
    using assms by (simp add: passes_end_def OBJECT_MAX_SIZE_def)
  then have "off_write s + int (min len (length buff)) \<le> 4096" by linarith
  with assms(1) show ?thesis
    by (subst write_copy_fits [OF False]) (intro exI conjI, rule refl, simp_all)
next
  case True
  then have a: "0 \<le> 4096 - off_write s" "4096 - off_write s < int len"
    by (simp_all add: passes_end_def OBJECT_MAX_SIZE_def)
  show ?thesis
  proof (cases "length buff < nat (4096 - off_write s)")
    case True
    with a have "int (length buff) \<le> int len" "off_write s + int (length buff) \<le> 4096"
      by linarith+
    with assms(1) show ?thesis
      by (subst write_copy_wraps_short [OF \<open>passes_end (off_write s) len\<close> True])
        (intro exI conjI, rule refl, simp_all)
  next
    case False
    then have b: "nat (4096 - off_write s) \<le> length buff" by simp
    define k2 where "k2 = min (len - nat (4096 - off_write s)) (length buff - nat (4096 - off_write s))"
    have c: "k2 \<le> len - nat (4096 - off_write s)" by (simp add: k2_def)
    with a assms(3) have d: "int k2 \<le> 4096" "nat (4096 - off_write s) + k2 \<le> len"
      by linarith+
    have e: "4096 - off_write s + int k2 = int (nat (4096 - off_write s) + k2)"
      using a by simp
    show ?thesis
      apply (subst write_copy_wraps [OF \<open>passes_end (off_write s) len\<close> b])
      apply (fold k2_def)
      apply (subst e)
      apply (intro exI conjI, rule refl)
      using d a by simp_all
  qed
qed

lemma write_copy_returns_len:
  assumes "len \<le> length buff"
  shows "snd (write_copy s buff len) = int len"
proof (cases "passes_end (off_write s) len")
  case False
  with assms show ?thesis by (simp add: write_copy_fits)
next
  case True
  then have a: "0 \<le> 4096 - off_write s" "4096 - off_write s < int len"
    by (simp_all add: passes_end_def OBJECT_MAX_SIZE_def)
  with assms have b: "nat (4096 - off_write s) \<le> length buff" by linarith
  from assms have "min (len - nat (4096 - off_write s)) (length buff - nat (4096 - off_write s)) =
      len - nat (4096 - off_write s)"
    by simp
  with a show ?thesis
    by (simp add: write_copy_wraps [OF True b])
qed

lemma write_locked_returns:
  assumes "len \<le> length buff"
  shows "snd (write_locked s buff len) = (if file_is_full s len then 0 else int len)"
proof (cases "write_copy s buff len")
  case (Pair s' r)
  with write_copy_returns_len [OF assms, of s] have "r = int len" by simp
  with Pair show ?thesis
    by (simp add: write_locked_def exit_write_def)
qed

lemma copy_to_user_ret:
  "snd (copy_to_user ubuf to mem from n) = n - min n (length ubuf - to)"
  by (simp add: copy_to_user_def Let_def)

lemma copy_to_user_length:
  "to \<le> length ubuf \<Longrightarrow> length (fst (copy_to_user ubuf to mem from n)) = length ubuf"
  by (simp add: copy_to_user_def Let_def)

lemma read_copy_fits:
  assumes "\<not> passes_end (off_read s) len"
  shows "read_copy s ubuf len 0 0 =
     (s\<lparr>off_read := off_read s + int (min len (length ubuf))\<rparr>,
      fst (copy_to_user ubuf 0 (stream_content s) (nat (off_read s)) len),
      len, 0, int (min len (length ubuf)))"
  using assms by (simp add: read_copy_def Let_def case_prod_beta copy_to_user_ret)

lemma read_copy_wraps_short:
  assumes "passes_end (off_read s) len" and "length ubuf < nat (4096 - off_read s)"
  shows "read_copy s ubuf len 0 0 =
     (s\<lparr>off_read := off_read s + int (length ubuf)\<rparr>,
      fst (copy_to_user ubuf 0 (stream_content s) (nat (off_read s)) (nat (4096 - off_read s))),
      nat (4096 - off_read s), int len + off_read s - 4096, int (length ubuf))"
  using assms
  by (simp add: read_copy_def Let_def case_prod_beta copy_to_user_ret OBJECT_MAX_SIZE_def)

lemma read_copy_wraps:
  assumes "passes_end (off_read s) len" and "nat (4096 - off_read s) \<le> length ubuf"
  shows "read_copy s ubuf len 0 0 =
     (s\<lparr>off_read := int (min (len - nat (4096 - off_read s))
                             (length ubuf - nat (4096 - off_read s)))\<rparr>,
      fst (copy_to_user
             (fst (copy_to_user ubuf 0 (stream_content s) (nat (off_read s))
                     (nat (4096 - off_read s))))
             (nat (4096 - off_read s)) (stream_content s) 0 (len - nat (4096 - off_read s))),
      nat (4096 - off_read s), int len + off_read s - 4096,
      4096 - off_read s + int (min (len - nat (4096 - off_read s))
                             (length ubuf - nat (4096 - off_read s))))"
proof -
  from assms(1) have a: "0 \<le> 4096 - off_read s" "4096 - off_read s < int len"
    by (simp_all add: passes_end_def OBJECT_MAX_SIZE_def)
  then have b: "nat (int len + off_read s - 4096) = len - nat (4096 - off_read s)"
    and c: "0 < int len + off_read s - 4096"
    by linarith+
  from assms(2) have d: "min (nat (4096 - off_read s)) (length ubuf) = nat (4096 - off_read s)"
    by simp
  show ?thesis
    using assms(1) a c
    by (simp add: read_copy_def Let_def case_prod_beta copy_to_user_ret copy_to_user_length
        OBJECT_MAX_SIZE_def b d)
qed

lemma read_copy_shape:
  assumes "0 \<le> off_read s" and "off_read s \<le> 4096" and "len < 4096"
  shows "\<exists>k rd u l l2. read_copy s ubuf len 0 0 = (s\<lparr>off_read := rd\<rparr>, u, l, l2, int k) \<and>
           k \<le> len \<and> 0 \<le> rd \<and> rd \<le> 4096 \<and>
           (rd = off_read s + int k \<or> rd = off_read s + int k - 4096)"
proof (cases "passes_end (off_read s) len")
  case False
  then have "int len \<le> 4096 - off_read s"
    using assms by (simp add: passes_end_def OBJECT_MAX_SIZE_def)
  then have "off_read s + int (min len (length ubuf)) \<le> 4096" by linarith
  with assms(1) show ?thesis
    by (subst read_copy_fits [OF False]) (intro exI conjI, rule refl, simp_all)
next
  case True
  then have a: "0 \<le> 4096 - off_read s" "4096 - off_read s < int len"
    by (simp_all add: passes_end_def OBJECT_MAX_SIZE_def)
  show ?thesis
  proof (cases "length ubuf < nat (4096 - off_read s)")
    case True
    with a have "int (length ubuf) \<le> int len" "off_read s + int (length ubuf) \<le> 4096"
      by linarith+
    with assms(1) show ?thesis
      by (subst read_copy_wraps_short [OF \<open>passes_end (off_read s) len\<close> True])
        (intro exI conjI, rule refl, simp_all)
  next
    case False
    then have b: "nat (4096 - off_read s) \<le> length ubuf" by simp
    define k2 where "k2 = min (len - nat (4096 - off_read s)) (length ubuf - nat (4096 - off_read s))"
    have c: "k2 \<le> len - nat (4096 - off_read s)" by (simp add: k2_def)
    with a assms(3) have d: "int k2 \<le> 4096" "nat (4096 - off_read s) + k2 \<le> len"
      by linarith+
    have e: "4096 - off_read s + int k2 = int (nat (4096 - off_read s) + k2)"
      using a by simp
    show ?thesis
      apply (subst read_copy_wraps [OF \<open>passes_end (off_read s) len\<close> b])
      apply (fold k2_def)
      apply (subst e)
      apply (intro exI conjI, rule refl)
      using d a by simp_all
  qed
qed

subsection \<open>Arithmetic of the ring and of the counter\<close>

lemma ring_add:
  fixes n a b k w :: int
  assumes "n = (a - b) mod 4096" and "0 \<le> k" and "n + k < 4096"
    and "w = a + k \<or> w = a + k - 4096"
  shows "n + k = (w - b) mod 4096"
proof -
  from assms(4) have "(w - b) mod 4096 = (a - b + k) mod 4096"
  proof
    assume "w = a + k"
    then show ?thesis by (simp add: algebra_simps)
  next
    assume "w = a + k - 4096"
    then have "w - b = (a - b + k) - 4096" by simp
    then show ?thesis by (simp only: minus_mod_self2)
  qed
  also have "\<dots> = ((a - b) mod 4096 + k) mod 4096"
    by (simp add: mod_add_left_eq)
  also have "\<dots> = (n + k) mod 4096"
    by (simp add: assms(1))
  also have "\<dots> = n + k"
    using assms(1,2,3) by (simp add: mod_pos_pos_trivial)
  finally show ?thesis by simp
qed

lemma ring_sub:
  fixes n a b k r :: int
  assumes "n = (a - b) mod 4096" and "0 \<le> k" and "k \<le> n"
    and "r = b + k \<or> r = b + k - 4096"
  shows "n - k = (a - r) mod 4096"
proof -
  from assms(4) have "(a - r) mod 4096 = (a - b - k) mod 4096"
  proof
    assume "r = b + k"
    then show ?thesis by (simp add: algebra_simps)
  next
    assume "r = b + k - 4096"
    then have "a - r = (a - b - k) + 4096" by simp
    then show ?thesis by (simp only: mod_add_self2)
  qed
  also have "\<dots> = ((a - b) mod 4096 - k) mod 4096"
    by (simp add: mod_diff_left_eq)
  also have "\<dots> = (n - k) mod 4096"
    by (simp add: assms(1))
  also have "\<dots> = n - k"
  proof -
    have "n < 4096" by (simp add: assms(1))
    with assms(2,3) show ?thesis by (simp add: mod_pos_pos_trivial)
  qed
  finally show ?thesis by simp
qed

lemma unat_counter_add:
  fixes c :: "32 word"
  assumes "unat c + k < 4096"
  shows "unat (c + word_of_int (int k)) = unat c + k"
proof -
  have k: "unat (of_nat k :: 32 word) = k"
    using assms by (simp add: unat_of_nat)
  have "unat (c + of_nat k) = unat c + unat (of_nat k :: 32 word)"
    using assms k by (simp add: unat_add_lem [THEN iffD1])
  with k show ?thesis by simp
qed

lemma unat_counter_sub:
  fixes c :: "32 word"
  assumes "k \<le> unat c"
  shows "unat (c - word_of_int (int k)) = unat c - k"
proof -
  from assms have k: "unat (of_nat k :: 32 word) = k"
    by (rule le_unat_uoi)
  with assms have "(of_nat k :: 32 word) \<le> c"
    by (simp add: word_le_nat_alt)
  then have "unat (c - of_nat k) = unat c - unat (of_nat k :: 32 word)"
    by (rule unat_sub)
  with k show ?thesis by simp
qed

subsection \<open>The invariant under the operations\<close>

text \<open>
  A high-priority write keeps the invariant whatever part of the user data can be read:
  the counter grows by what the copies return, and so does the write offset around the
  page.
\<close>

lemma ring_invI:
  assumes "0 \<le> off_read s" "off_read s \<le> 4096" "0 \<le> off_write s" "off_write s \<le> 4096"
    "unat (numBytes s) < 4096" "int (unat (numBytes s)) = (off_write s - off_read s) mod 4096"
  shows "ring_inv s"
  unfolding ring_inv_def OBJECT_MAX_SIZE_def using assms by linarith

lemma ring_invD:
  assumes "ring_inv s"
  shows "0 \<le> off_read s" "off_read s \<le> 4096" "0 \<le> off_write s" "off_write s \<le> 4096"
    "unat (numBytes s) < 4096" "int (unat (numBytes s)) = (off_write s - off_read s) mod 4096"
  using assms unfolding ring_inv_def OBJECT_MAX_SIZE_def by linarith+

lemma ring_inv_numReaders [simp]:
  "ring_inv (s\<lparr>numReaders := n\<rparr>) = ring_inv s"
  by (simp add: ring_inv_def)

lemma write_locked_ring_inv:
  assumes "ring_inv s"
  shows "ring_inv (fst (write_locked s buff len))"
proof (cases "file_is_full s len")
  case True
  with assms show ?thesis by (simp add: write_locked_def)
next
  case False
  then have nf: "unat (numBytes s) + len < 4096"
    by (simp add: file_is_full_iff)
  note d = ring_invD [OF assms]
  from nf have "len < 4096" by simp
  from write_copy_shape [OF d(3,4) this, of buff]
  obtain k w m where wc: "write_copy s buff len = (s\<lparr>off_write := w, stream_content := m\<rparr>, int k)"
    and k: "k \<le> len" and w: "0 \<le> w" "w \<le> 4096"
      "w = off_write s + int k \<or> w = off_write s + int k - 4096"
    by blast
  from k nf have kb: "unat (numBytes s) + k < 4096" by simp
  then have u: "unat (numBytes s + word_of_int (int k)) = unat (numBytes s) + k"
    by (rule unat_counter_add)
  have r: "int (unat (numBytes s)) + int k = (w - off_read s) mod 4096"
    using d(6) _ _ w(3)
  proof (rule ring_add)
    show "0 \<le> int k" by simp
    show "int (unat (numBytes s)) + int k < 4096" using kb by linarith
  qed
  show ?thesis
  proof (cases "k = 0")
    case True
    with wc False have "fst (write_locked s buff len) = s\<lparr>off_write := w, stream_content := m\<rparr>"
      by (simp add: write_locked_def exit_write_def)
    moreover have "ring_inv (s\<lparr>off_write := w, stream_content := m\<rparr>)"
      using d w r True by (intro ring_invI) simp_all
    ultimately show ?thesis by simp
  next
    case nz: False
    with wc False have "fst (write_locked s buff len) =
        s\<lparr>off_write := w, stream_content := m, numBytes := numBytes s + word_of_int (int k)\<rparr>"
      by (simp add: write_locked_def exit_write_def)
    moreover have "ring_inv (s\<lparr>off_write := w, stream_content := m,
        numBytes := numBytes s + word_of_int (int k)\<rparr>)"
    proof (intro ring_invI)
      show "unat (numBytes (s\<lparr>off_write := w, stream_content := m,
          numBytes := numBytes s + word_of_int (int k)\<rparr>)) < 4096"
        using u kb by simp
      show "int (unat (numBytes (s\<lparr>off_write := w, stream_content := m,
          numBytes := numBytes s + word_of_int (int k)\<rparr>))) =
        (off_write (s\<lparr>off_write := w, stream_content := m,
          numBytes := numBytes s + word_of_int (int k)\<rparr>) -
         off_read (s\<lparr>off_write := w, stream_content := m,
          numBytes := numBytes s + word_of_int (int k)\<rparr>)) mod 4096"
        using u r by (simp del: of_nat_unat of_int_of_nat_eq)
    qed (use d w in simp_all)
    ultimately show ?thesis by simp
  qed
qed

lemma dev_write_high_ring_inv:
  assumes "ring_inv s" and "priority s" and "dev_write kz trylocks s buff len = Some (s', r)"
  shows "ring_inv s'"
proof (cases "blocking s")
  case False
  with assms(2,3) have "s' = fst (dev_write_high_nonblocking trylocks s buff len)"
    by (auto simp: dev_write_def)
  with assms(1) show ?thesis
    by (auto simp: dev_write_high_nonblocking_def write_locked_ring_inv split: list.splits)
next
  case True
  with assms(2,3) have "dev_write_high_blocking trylocks s buff len = Some (s', r)"
    by (simp add: dev_write_def)
  then have "s' = fst (write_locked s buff len)"
    by (induction trylocks) (auto split: if_splits)
  with assms(1) show ?thesis by (simp add: write_locked_ring_inv)
qed

text \<open>
  A read that asks for no more than \<open>numBytes\<close> keeps the invariant; the counter
  shrinks by what the copies return.
\<close>

lemma read_exit_ring_inv:
  assumes "ring_inv s" and "k \<le> len" and "len \<le> unat (numBytes s)"
    and "0 \<le> rd" and "rd \<le> 4096"
    and "rd = off_read s + int k \<or> rd = off_read s + int k - 4096"
  shows "ring_inv (fst (read_exit (s\<lparr>off_read := rd\<rparr>, u, int k)))"
proof -
  note d = ring_invD [OF assms(1)]
  from assms(2,3) have kb: "k \<le> unat (numBytes s)" by simp
  then have u: "unat (numBytes s - word_of_int (int k)) = unat (numBytes s) - k"
    by (rule unat_counter_sub)
  have r: "int (unat (numBytes s)) - int k = (off_write s - rd) mod 4096"
    using d(6) _ _ assms(6)
  proof (rule ring_sub)
    show "0 \<le> int k" by simp
    show "int k \<le> int (unat (numBytes s))" using kb by linarith
  qed
  have r': "int (unat (numBytes s) - k) = (off_write s - rd) mod 4096"
    using r kb by (simp add: of_nat_diff del: of_nat_unat)
  show ?thesis
  proof (cases "k = 0")
    case True
    then have "fst (read_exit (s\<lparr>off_read := rd\<rparr>, u, int k)) =
        s\<lparr>off_read := rd, numReaders := numReaders s - 1\<rparr>"
      by (simp add: read_exit_def)
    moreover have "ring_inv (s\<lparr>off_read := rd\<rparr>)"
      using d assms(4,5) r True by (intro ring_invI) simp_all
    ultimately show ?thesis by simp
  next
    case False
    then have "fst (read_exit (s\<lparr>off_read := rd\<rparr>, u, int k)) =
        s\<lparr>off_read := rd, numReaders := numReaders s - 1,
          numBytes := numBytes s - word_of_int (int k)\<rparr>"
      by (simp add: read_exit_def)
    moreover have "ring_inv (s\<lparr>off_read := rd, numReaders := numReaders s - 1,
          numBytes := numBytes s - word_of_int (int k)\<rparr>)"
    proof (intro ring_invI)
      show "unat (numBytes (s\<lparr>off_read := rd, numReaders := numReaders s - 1,
          numBytes := numBytes s - word_of_int (int k)\<rparr>)) < 4096"
        using u d(5) by simp
      show "int (unat (numBytes (s\<lparr>off_read := rd, numReaders := numReaders s - 1,
          numBytes := numBytes s - word_of_int (int k)\<rparr>))) =
        (off_write (s\<lparr>off_read := rd, numReaders := numReaders s - 1,
          numBytes := numBytes s - word_of_int (int k)\<rparr>) -
         off_read (s\<lparr>off_read := rd, numReaders := numReaders s - 1,
          numBytes := numBytes s - word_of_int (int k)\<rparr>)) mod 4096"
        using u r' by (simp del: of_nat_unat of_int_of_nat_eq)
    qed (use d assms(4,5) in simp_all)
    ultimately show ?thesis by simp
  qed
qed

lemma read_exit_unchanged_ring_inv:
  assumes "ring_inv s"
  shows "ring_inv (fst (read_exit (s, u, 0)))"
  using assms by (simp add: read_exit_def)

lemma read_nonblocking_ring_inv:
  assumes "ring_inv s" and "len \<le> unat (numBytes s)"
  shows "ring_inv (fst (read_exit (read_nonblocking_body trylocks s ubuf len)))"
proof (cases "\<exists>rest. trylocks = True # rest \<and> off_write s - off_read s \<noteq> 0")
  case False
  then have "read_nonblocking_body trylocks s ubuf len = (s, ubuf, 0)"
    by (auto simp: read_nonblocking_body_def split: list.splits)
  with assms(1) show ?thesis by (simp add: read_exit_unchanged_ring_inv)
next
  case True
  note d = ring_invD [OF assms(1)]
  from assms(2) d(5) have "len < 4096" by simp
  from read_copy_shape [OF d(1,2) this, of ubuf]
  obtain k rd u l l2 where rc: "read_copy s ubuf len 0 0 = (s\<lparr>off_read := rd\<rparr>, u, l, l2, int k)"
    and k: "k \<le> len" "0 \<le> rd" "rd \<le> 4096"
      "rd = off_read s + int k \<or> rd = off_read s + int k - 4096"
    by blast
  from True rc have "read_nonblocking_body trylocks s ubuf len = (s\<lparr>off_read := rd\<rparr>, u, int k)"
    by (auto simp: read_nonblocking_body_def)
  with read_exit_ring_inv [OF assms(1) k(1) assms(2) k(2,3,4)] show ?thesis by simp
qed

lemma read_blocking_loop_shape:
  assumes "ring_inv s" and "len \<le> unat (numBytes s)" and "len \<le> length ubuf"
  shows "read_blocking_loop trylocks s ubuf len 0 0 = (s, ubuf, 0) \<or>
         (\<exists>u. read_blocking_loop trylocks s ubuf len 0 0 =
                (s\<lparr>off_read := off_read s + int len\<rparr>, u, int len) \<and>
              off_read s + int len \<le> 4096)"
proof (induction trylocks)
  case Nil
  show ?case by simp
next
  case (Cons got rest)
  note d = ring_invD [OF assms(1)]
  show ?case
  proof (cases "off_write s - off_read s \<le> 0")
    case True
    then show ?thesis by (simp add: wait_event_timeout_def)
  next
    case False
    show ?thesis
    proof (cases got)
      case False
      with Cons show ?thesis by simp
    next
      case True
      from \<open>\<not> off_write s - off_read s \<le> 0\<close> have pos: "0 < off_write s - off_read s" by simp
      have fit: "int len \<le> 4096 - off_read s"
      proof (cases "off_write s - off_read s < 4096")
        case True
        with pos have "(off_write s - off_read s) mod 4096 = off_write s - off_read s"
          by (simp add: mod_pos_pos_trivial)
        with d(6) assms(2) d(4) show ?thesis by linarith
      next
        case False
        with d(1,4) have "off_write s - off_read s = 4096" by linarith
        with d(6) have "unat (numBytes s) = 0" by (simp del: of_nat_unat)
        with assms(2) d(2) show ?thesis by simp
      qed
      then have np: "\<not> passes_end (off_read s) len"
        by (simp add: passes_end_def OBJECT_MAX_SIZE_def)
      from assms(3) have m: "min len (length ubuf) = len" by simp
      from True pos fit show ?thesis
        by (simp add: wait_event_timeout_def read_copy_fits [OF np] m)
    qed
  qed
qed

lemma read_blocking_ring_inv:
  assumes "ring_inv s" and "len \<le> unat (numBytes s)" and "len \<le> length ubuf"
  shows "ring_inv (fst (read_exit (read_blocking_loop trylocks s ubuf len 0 0)))"
  using read_blocking_loop_shape [OF assms, of trylocks]
proof (elim disjE exE conjE)
  assume "read_blocking_loop trylocks s ubuf len 0 0 = (s, ubuf, 0)"
  with assms(1) show ?thesis by (simp add: read_exit_unchanged_ring_inv)
next
  fix u
  assume a: "read_blocking_loop trylocks s ubuf len 0 0 =
      (s\<lparr>off_read := off_read s + int len\<rparr>, u, int len)"
    and b: "off_read s + int len \<le> 4096"
  note d = ring_invD [OF assms(1)]
  have "ring_inv (fst (read_exit (s\<lparr>off_read := off_read s + int len\<rparr>, u, int len)))"
    using assms(1) _ assms(2) _ b
  proof (rule read_exit_ring_inv)
    show "0 \<le> off_read s + int len" using d(1) by simp
    show "off_read s + int len = off_read s + int len \<or>
          off_read s + int len = off_read s + int len - 4096" by simp
  qed simp
  with a show ?thesis by simp
qed

lemma dev_read_ring_inv:
  assumes "ring_inv s" and "len \<le> unat (numBytes s)" and "blocking s \<longrightarrow> len \<le> length ubuf"
  shows "ring_inv (fst (dev_read trylocks s ubuf len))"
proof -
  let ?s1 = "s\<lparr>numReaders := numReaders s + 1\<rparr>"
  have i: "ring_inv ?s1" using assms(1) by simp
  have n: "len \<le> unat (numBytes ?s1)" using assms(2) by simp
  show ?thesis
  proof (cases "blocking s")
    case True
    with assms(3) have "len \<le> length ubuf" by simp
    from read_blocking_ring_inv [OF i n this, of trylocks] True show ?thesis
      by (simp add: dev_read_def)
  next
    case False
    from read_nonblocking_ring_inv [OF i n, of trylocks ubuf] False show ?thesis
      by (simp add: dev_read_def)
  qed
qed

text \<open>A low-priority write reserves only when the file is not full.\<close>

lemma low_blocking_reserves_not_full:
  "low_blocking_reserves trylocks s len \<Longrightarrow> \<not> file_is_full s len"
  by (induction trylocks) (auto split: if_splits)

lemma dev_write_low_scheduled:
  assumes "dev_write_low kz trylocks s buff len = (s', r)" and "works s' \<noteq> works s"
  shows "r = int (min len (length buff)) \<and> \<not> file_is_full s len \<and>
         s' = s\<lparr>numBytes := numBytes s + word_of_int r,
                works := works s @ [\<lparr>copiedBytes = r, buffer = task_buffer buff len\<rparr>]\<rparr>"
proof -
  have "\<not> file_is_full s len"
    using assms
    by (auto simp: dev_write_low_def Let_def low_nonblocking_reserves_def
        dest: low_blocking_reserves_not_full split: if_splits list.splits)
  moreover have "r = int (min len (length buff)) \<and>
         s' = s\<lparr>numBytes := numBytes s + word_of_int r,
                works := works s @ [\<lparr>copiedBytes = r, buffer = task_buffer buff len\<rparr>]\<rparr>"
    using assms by (auto simp: dev_write_low_def Let_def split: if_splits)
  ultimately show ?thesis by simp
qed

lemma delayed_work_offset:
  assumes "delayed_work kz w s = Some s'" and "0 \<le> off_write s" and "off_write s \<le> 4096"
    and "0 \<le> copiedBytes w" and "copiedBytes w < 4096"
  shows "\<exists>m wo. s' = s\<lparr>off_write := wo, stream_content := m\<rparr> \<and> 0 \<le> wo \<and> wo \<le> 4096 \<and>
           (wo = off_write s + copiedBytes w \<or> wo = off_write s + copiedBytes w - 4096)"
proof (cases "copiedBytes w \<le> 4096 - off_write s")
  case True
  with assms(1) have "s' = s\<lparr>off_write := off_write s + copiedBytes w,
      stream_content := strcpy (stream_content s) (nat (off_write s)) (buffer w)\<rparr>"
    by (simp add: delayed_work_def Let_def OBJECT_MAX_SIZE_def)
  with True assms(2,4) show ?thesis by (intro exI conjI) (assumption, simp_all)
next
  case False
  then have p: "0 < copiedBytes w + off_write s - 4096" by simp
  with False assms(1,3) obtain m where "s' = s\<lparr>off_write := copiedBytes w + off_write s - 4096,
      stream_content := m\<rparr>"
    by (auto simp: delayed_work_def Let_def OBJECT_MAX_SIZE_def split: if_splits)
  with p assms(3,5) show ?thesis by (intro exI conjI) (assumption, simp_all)
qed

lemma low_commit_ring_inv:
  assumes "ring_inv s" and "\<not> priority s" and "dev_write kz trylocks s buff len = Some (s1, r)"
    and "works s1 \<noteq> works s" and "delayed_work kz' (last (works s1)) s1 = Some s'"
  shows "ring_inv s'"
proof -
  note d = ring_invD [OF assms(1)]
  from assms(2,3) have "dev_write_low kz trylocks s buff len = (s1, r)"
    by (auto simp: dev_write_def)
  from dev_write_low_scheduled [OF this assms(4)]
  have r: "r = int (min len (length buff))" and nf: "\<not> file_is_full s len"
    and s1: "s1 = s\<lparr>numBytes := numBytes s + word_of_int r,
                works := works s @ [\<lparr>copiedBytes = r, buffer = task_buffer buff len\<rparr>]\<rparr>"
    by simp_all
  define k where "k = min len (length buff)"
  from nf have full: "unat (numBytes s) + len < 4096"
    by (simp add: file_is_full_iff)
  then have kb: "unat (numBytes s) + k < 4096" by (simp add: k_def)
  have rk: "r = int k" by (simp add: r k_def)
  have l: "last (works s1) = \<lparr>copiedBytes = r, buffer = task_buffer buff len\<rparr>"
    by (simp add: s1)
  have o: "off_write s1 = off_write s" "off_read s1 = off_read s"
    "numBytes s1 = numBytes s + word_of_int (int k)"
    by (simp_all add: s1 rk)
  from delayed_work_offset [OF assms(5)] d(3,4) kb
  obtain m wo where s': "s' = s1\<lparr>off_write := wo, stream_content := m\<rparr>"
    and wo: "0 \<le> wo" "wo \<le> 4096" "wo = off_write s + int k \<or> wo = off_write s + int k - 4096"
    by (auto simp: l o rk)
  have u: "unat (numBytes s + word_of_int (int k)) = unat (numBytes s) + k"
    using kb by (rule unat_counter_add)
  have e: "int (unat (numBytes s)) + int k = (wo - off_read s) mod 4096"
    using d(6) _ _ wo(3)
  proof (rule ring_add)
    show "0 \<le> int k" by simp
    show "int (unat (numBytes s)) + int k < 4096" using kb by linarith
  qed
  show ?thesis
  proof (rule ring_invI)
    show "unat (numBytes s') < 4096" using u kb by (simp add: s' o)
    show "int (unat (numBytes s')) = (off_write s' - off_read s') mod 4096"
      using u e by (simp add: s' o del: of_nat_unat of_int_of_nat_eq)
  qed (use d wo in \<open>simp_all add: s' o\<close>)
qed

lemma dev_ioctl_ring_inv:
  assumes "ring_inv s" and "dev_ioctl s command param = (s', r)"
  shows "ring_inv s'"
  using assms
  by (auto simp: dev_ioctl_def ring_inv_def split: option.splits if_splits)

lemma init_module_ring_inv: "ring_inv (init_module page)"
  by (simp add: ring_inv_def init_module_def OBJECT_MAX_SIZE_def)

text \<open>
  Claim C6, as amended. In every state reached from \<open>init_module\<close> by \<open>dev_ioctl\<close>, by
  high-priority writes, by low-priority writes together with the run of their deferred
  work, and by reads that ask for no more than the bytes present: the two offsets lie
  between 0 and the capacity, the byte count lies between 0 and the capacity minus one
  and equals (write offset - read offset) mod capacity. The buffer never gets full, so
  equal offsets mean an empty buffer: the count is 0 then. Between the reservation of a
  low-priority write and the run of its worker the count is ahead of the offsets, as the
  example further below shows on a write of "ciao".
\<close>

theorem reach_ring_inv:
  assumes "reach s"
  shows "ring_inv s \<and> (off_read s = off_write s \<longrightarrow> numBytes s = 0)"
proof -
  from assms have i: "ring_inv s"
  proof induction
    case (init page)
    show ?case by (rule init_module_ring_inv)
  next
    case (ioctl s command param s' r)
    then show ?case by (simp add: dev_ioctl_ring_inv)
  next
    case (write_high s kz trylocks buff len s' r)
    then show ?case by (simp add: dev_write_high_ring_inv)
  next
    case (write_low_commit s kz trylocks buff len s1 r kz' s')
    then show ?case by (simp add: low_commit_ring_inv)
  next
    case (read s len ubuf trylocks s' ubuf' r)
    from dev_read_ring_inv [OF read.IH read.hyps(2,3), of trylocks] read.hyps(4)
    show ?case by simp
  qed
  moreover have "numBytes s = 0" if "off_read s = off_write s"
  proof -
    from ring_invD(6) [OF i] that have "unat (numBytes s) = 0"
      by (simp del: of_nat_unat)
    then show ?thesis by (simp add: unat_eq_0)
  qed
  ultimately show ?thesis by simp
qed

subsection \<open>Reservation and deferred copy of a low-priority write\<close>

lemma delayed_work_counters:
  "delayed_work kz w s = Some s' \<Longrightarrow>
     numBytes s' = numBytes s \<and> numReaders s' = numReaders s \<and> off_read s' = off_read s"
  by (auto simp: delayed_work_def Let_def split: if_splits)

text \<open>
  Claim C3. A low-priority write that succeeds, that is, one that schedules its work:
  it returns the number of bytes it took from the user, which is the \<open>copiedBytes\<close> of
  the work; \<open>numBytes\<close> has grown by that number when the call returns; the page and the
  two offsets are as before the call, the copy into the page being left to the worker.
  And \<open>delayed_work\<close>, whenever it completes, leaves \<open>numBytes\<close> as it found it.
\<close>

theorem low_write_reserves_then_worker_copies:
  "(\<not> priority s \<and> dev_write kz trylocks s buff len = Some (s', r) \<and> works s' \<noteq> works s \<longrightarrow>
      works s' = works s @ [\<lparr>copiedBytes = r, buffer = task_buffer buff len\<rparr>] \<and>
      r = int (min len (length buff)) \<and>
      numBytes s' = numBytes s + word_of_int r \<and>
      stream_content s' = stream_content s \<and>
      off_write s' = off_write s \<and> off_read s' = off_read s) \<and>
   (delayed_work kz' w t = Some t' \<longrightarrow> numBytes t' = numBytes t)"
proof (intro conjI impI)
  assume a: "\<not> priority s \<and> dev_write kz trylocks s buff len = Some (s', r) \<and> works s' \<noteq> works s"
  then have "dev_write_low kz trylocks s buff len = (s', r)"
    by (auto simp: dev_write_def)
  from dev_write_low_scheduled [OF this] a
  have r: "r = int (min len (length buff))"
    and s': "s' = s\<lparr>numBytes := numBytes s + word_of_int r,
                works := works s @ [\<lparr>copiedBytes = r, buffer = task_buffer buff len\<rparr>]\<rparr>"
    by simp_all
  show "works s' = works s @ [\<lparr>copiedBytes = r, buffer = task_buffer buff len\<rparr>]"
    by (subst s') simp
  show "r = int (min len (length buff))" by (rule r)
  show "numBytes s' = numBytes s + word_of_int r" by (subst s') simp
  show "stream_content s' = stream_content s" by (subst s') simp
  show "off_write s' = off_write s" by (subst s') simp
  show "off_read s' = off_read s" by (subst s') simp
next
  assume "delayed_work kz' w t = Some t'"
  then show "numBytes t' = numBytes t" by (simp add: delayed_work_counters)
qed

subsection \<open>The test for a full file\<close>

lemma write_copy_numBytes: "numBytes (fst (write_copy s buff len)) = numBytes s"
proof (cases "passes_end (off_write s) len")
  case False
  then show ?thesis by (simp add: write_copy_fits)
next
  case True
  show ?thesis
  proof (cases "length buff < nat (4096 - off_write s)")
    case short: True
    show ?thesis by (simp add: write_copy_wraps_short [OF True short])
  next
    case False
    then have "nat (4096 - off_write s) \<le> length buff" by simp
    then show ?thesis by (simp add: write_copy_wraps [OF True])
  qed
qed

lemma write_locked_not_full:
  assumes "len \<le> length buff" and "unat (numBytes s) + len < 4096"
  shows "\<exists>s'. write_locked s buff len = (s', int len) \<and>
           unat (numBytes s') = unat (numBytes s) + len"
proof -
  from assms(2) have nf: "\<not> file_is_full s len" by (simp add: file_is_full_iff)
  obtain s1 r where wc: "write_copy s buff len = (s1, r)" by (cases "write_copy s buff len")
  with write_copy_returns_len [OF assms(1), of s] write_copy_numBytes [of s buff len]
  have r: "r = int len" and n: "numBytes s1 = numBytes s" by simp_all
  have u: "unat (numBytes s + word_of_int (int len)) = unat (numBytes s) + len"
    using assms(2) by (rule unat_counter_add)
  show ?thesis
  proof (cases "len = 0")
    case True
    with nf wc r n show ?thesis
      by (simp add: write_locked_def exit_write_def)
  next
    case False
    with nf wc r n u show ?thesis
      by (simp add: write_locked_def exit_write_def del: of_int_of_nat_eq)
  qed
qed

text \<open>
  Claim C5, as amended. A non-blocking write of \<open>len\<close> bytes that gets the lock and can
  read its user data (both priorities, the low one with a successful \<open>kzalloc\<close>): when
  \<open>numBytes + len\<close> is at least the capacity 4096, it returns 0 and leaves the state of
  the minor as it was, so a write that would fill the buffer to exactly 4096 bytes is
  refused; when \<open>numBytes + len\<close> is below 4096, it returns \<open>len\<close> and the count becomes
  \<open>numBytes + len\<close>, which is at most 4095. For a positive \<open>len\<close> the write so
  returns 0 exactly when \<open>numBytes + len \<ge> 4096\<close>.
\<close>

theorem nonblocking_write_full_test:
  assumes "\<not> blocking s" and "len \<le> length buff" and "priority s \<or> kz"
  shows "(4096 \<le> unat (numBytes s) + len \<longrightarrow>
            dev_write kz (True # rest) s buff len = Some (s, 0)) \<and>
         (unat (numBytes s) + len < 4096 \<longrightarrow>
            (\<exists>s'. dev_write kz (True # rest) s buff len = Some (s', int len) \<and>
                  unat (numBytes s') = unat (numBytes s) + len \<and>
                  unat (numBytes s') \<le> 4095))"
proof (cases "priority s")
  case True
  have full: "dev_write kz (True # rest) s buff len = Some (s, 0)"
    if "4096 \<le> unat (numBytes s) + len"
    using that True assms(1)
    by (simp add: dev_write_def dev_write_high_nonblocking_def write_locked_def file_is_full_iff)
  have room: "\<exists>s'. dev_write kz (True # rest) s buff len = Some (s', int len) \<and>
                  unat (numBytes s') = unat (numBytes s) + len \<and>
                  unat (numBytes s') \<le> 4095"
    if a: "unat (numBytes s) + len < 4096"
  proof -
    from write_locked_not_full [OF assms(2) a]
    obtain s' where "write_locked s buff len = (s', int len)"
      and "unat (numBytes s') = unat (numBytes s) + len"
      by blast
    with True assms(1) a show ?thesis
      by (simp add: dev_write_def dev_write_high_nonblocking_def)
  qed
  from full room show ?thesis by (intro conjI impI)
next
  case False
  with assms have kz by simp
  from assms(2) have m: "min len (length buff) = len" by simp
  have e: "dev_write kz (True # rest) s buff len =
      Some (if file_is_full s len then (s, 0)
       else (s\<lparr>numBytes := numBytes s + word_of_int (int len),
               works := works s @ [\<lparr>copiedBytes = int len, buffer = task_buffer buff len\<rparr>]\<rparr>,
             int len))"
    using assms(1) False \<open>kz\<close>
    by (simp add: dev_write_def dev_write_low_def low_nonblocking_reserves_def Let_def m)
  have full: "dev_write kz (True # rest) s buff len = Some (s, 0)"
    if "4096 \<le> unat (numBytes s) + len"
    using that by (simp add: e file_is_full_iff)
  have room: "\<exists>s'. dev_write kz (True # rest) s buff len = Some (s', int len) \<and>
                  unat (numBytes s') = unat (numBytes s) + len \<and>
                  unat (numBytes s') \<le> 4095"
    if a: "unat (numBytes s) + len < 4096"
  proof -
    have u: "unat (numBytes s + word_of_int (int len)) = unat (numBytes s) + len"
      using a by (rule unat_counter_add)
    from a have "\<not> file_is_full s len" by (simp add: file_is_full_iff)
    with u a show ?thesis
      by (simp add: e del: of_int_of_nat_eq)
  qed
  from full room show ?thesis by (intro conjI impI)
qed

subsection \<open>The string copies of delayed_work\<close>

lemma strlen_terminated: "strlen (p @ NUL # zs) = length (bytes_before_zero p)"
  by (simp add: strlen_def bytes_before_zero_def takeWhile_tail)

lemma nth_before_zero:
  assumes "j < length (bytes_before_zero p)"
  shows "(p @ NUL # zs) ! j = bytes_before_zero p ! j"
proof -
  have "length (bytes_before_zero p) \<le> length p"
    by (simp add: bytes_before_zero_def length_takeWhile_le)
  with assms have "j < length p" by simp
  then have "(p @ NUL # zs) ! j = p ! j" by (simp add: nth_append)
  also have "\<dots> = bytes_before_zero p ! j"
    using assms by (simp add: bytes_before_zero_def takeWhile_nth)
  finally show ?thesis .
qed

lemma strcpy_terminated: "strcpy mem dest (p @ NUL # zs) = string_copy mem dest p"
proof
  fix i
  show "strcpy mem dest (p @ NUL # zs) i = string_copy mem dest p i"
  proof (cases "dest \<le> i \<and> i < dest + length (bytes_before_zero p)")
    case True
    then have "i - dest < length (bytes_before_zero p)" by linarith
    from nth_before_zero [OF this, of zs] True show ?thesis
      by (simp add: strcpy_def string_copy_def strlen_terminated)
  next
    case False
    then have "(dest \<le> i \<and> i < dest + length (bytes_before_zero p)) = False" by simp
    then show ?thesis
      unfolding strcpy_def string_copy_def strlen_terminated by (simp only: if_False)
  qed
qed

lemma task_buffer_eq:
  "task_buffer buff len =
     take (min len (length buff)) buff @ NUL # replicate (len - min len (length buff)) NUL"
proof -
  define k where "k = min len (length buff)"
  have l: "length (take k buff) = k" by (simp add: k_def)
  have "Suc len - k = Suc (len - k)" by (simp add: k_def)
  then have "(take k buff @ replicate (Suc len - k) NUL)[k := NUL] =
      take k buff @ NUL # replicate (len - k) NUL"
    using l by (simp add: list_update_append)
  then show ?thesis by (simp add: task_buffer_def Let_def k_def)
qed

lemma delayed_work_fits:
  assumes "k = min len (length buff)" and "int k \<le> 4096 - off_write s"
  shows "delayed_work kz \<lparr>copiedBytes = int k, buffer = task_buffer buff len\<rparr> s =
     Some (s\<lparr>off_write := off_write s + int k,
             stream_content := string_copy (stream_content s) (nat (off_write s)) (take k buff)\<rparr>)"
  using assms(2)
  by (simp add: delayed_work_def Let_def OBJECT_MAX_SIZE_def task_buffer_eq
      assms(1) [symmetric] strcpy_terminated)

lemma delayed_work_wraps:
  assumes "k = min len (length buff)" and "4096 - off_write s < int k" and "off_write s \<le> 4096"
  shows "delayed_work True \<lparr>copiedBytes = int k, buffer = task_buffer buff len\<rparr> s =
     Some (s\<lparr>off_write := int k + off_write s - 4096,
             stream_content :=
               string_copy
                 (string_copy (stream_content s) (nat (off_write s))
                    (take (nat (4096 - off_write s)) (take k buff)))
                 0 (drop (nat (4096 - off_write s)) (take k buff))\<rparr>)"
proof -
  define n1 where "n1 = nat (4096 - off_write s)"
  define p where "p = take k buff"
  have lp: "length p = k" by (simp add: p_def assms(1))
  have n1: "n1 < k" "int n1 = 4096 - off_write s"
    using assms(2,3) by (simp_all add: n1_def)
  have tb: "task_buffer buff len = p @ NUL # replicate (len - k) NUL"
    by (simp add: task_buffer_eq assms(1) [symmetric] p_def)
  have b1: "take n1 (task_buffer buff len) = take n1 p"
    using n1(1) lp by (simp add: tb)
  have n2: "nat (int k + off_write s - 4096) = k - n1"
    using n1 by linarith
  have b2: "take (k - n1) (drop n1 (task_buffer buff len)) = drop n1 p"
    using n1(1) lp by (simp add: tb)
  have c: "\<not> int k \<le> 4096 - off_write s" "0 < int k + off_write s - 4096"
    "\<not> 4096 - off_write s < 0"
    using assms(2,3) by simp_all
  have s1: "strcpy (stream_content s) (nat (off_write s)) (take n1 p @ [NUL]) =
      string_copy (stream_content s) (nat (off_write s)) (take n1 p)"
    by (rule strcpy_terminated)
  have s2: "strcpy m 0 (drop n1 p @ [NUL]) = string_copy m 0 (drop n1 p)" for m
    by (rule strcpy_terminated)
  show ?thesis
    unfolding delayed_work_def Let_def OBJECT_MAX_SIZE_def
    using c
    by (simp add: n1_def [symmetric] n2 b1 b2 s1 s2 p_def [symmetric])
qed

text \<open>
  Claim C10, as amended. The counter has grown by the whole reserved length \<open>r\<close> when
  the write returns. The worker then copies with \<open>strcpy\<close>, one contiguous piece at a
  time. When the payload ends before the end of the page, the bytes before its first
  zero byte and a terminating zero byte reach the page, and nothing else does. When the
  payload passes the end of the page, it is cut there and each of the two pieces is
  copied up to its own first zero byte, with a terminator: bytes after a zero byte of the
  first piece still reach the page, as the example further below shows.
  In both cases \<open>off_write\<close> advances by the whole length.
\<close>

theorem delayed_work_string_copy:
  assumes "\<not> priority s" and "dev_write kz trylocks s buff len = Some (s1, r)"
    and "works s1 \<noteq> works s" and "0 \<le> off_write s" and "off_write s \<le> 4096"
  shows "numBytes s1 = numBytes s + word_of_int r \<and>
    (r \<le> 4096 - off_write s \<longrightarrow>
       delayed_work kz' (last (works s1)) s1 =
         Some (s1\<lparr>off_write := off_write s + r,
                  stream_content :=
                    string_copy (stream_content s) (nat (off_write s)) (take (nat r) buff)\<rparr>)) \<and>
    (4096 - off_write s < r \<longrightarrow>
       delayed_work True (last (works s1)) s1 =
         Some (s1\<lparr>off_write := r + off_write s - 4096,
                  stream_content :=
                    string_copy
                      (string_copy (stream_content s) (nat (off_write s))
                         (take (nat (4096 - off_write s)) (take (nat r) buff)))
                      0 (drop (nat (4096 - off_write s)) (take (nat r) buff))\<rparr>))"
proof -
  define k where "k = min len (length buff)"
  from assms(1,2) have "dev_write_low kz trylocks s buff len = (s1, r)"
    by (auto simp: dev_write_def)
  from dev_write_low_scheduled [OF this assms(3)]
  have r: "r = int k"
    and s1: "s1 = s\<lparr>numBytes := numBytes s + word_of_int r,
                works := works s @ [\<lparr>copiedBytes = r, buffer = task_buffer buff len\<rparr>]\<rparr>"
    by (simp_all add: k_def)
  have l: "last (works s1) = \<lparr>copiedBytes = int k, buffer = task_buffer buff len\<rparr>"
    by (subst s1) (simp add: r)
  have o: "off_write s1 = off_write s" "stream_content s1 = stream_content s"
    by (subst s1, simp)+
  have n: "numBytes s1 = numBytes s + word_of_int r"
    by (subst s1) simp
  have f: "delayed_work kz' (last (works s1)) s1 =
         Some (s1\<lparr>off_write := off_write s + r,
                  stream_content :=
                    string_copy (stream_content s) (nat (off_write s)) (take (nat r) buff)\<rparr>)"
    if "r \<le> 4096 - off_write s"
  proof -
    from that have "int k \<le> 4096 - off_write s1" by (simp add: r o)
    from delayed_work_fits [OF k_def this, of kz'] show ?thesis
      by (simp add: l o r)
  qed
  have w: "delayed_work True (last (works s1)) s1 =
         Some (s1\<lparr>off_write := r + off_write s - 4096,
                  stream_content :=
                    string_copy
                      (string_copy (stream_content s) (nat (off_write s))
                         (take (nat (4096 - off_write s)) (take (nat r) buff)))
                      0 (drop (nat (4096 - off_write s)) (take (nat r) buff))\<rparr>)"
    if "4096 - off_write s < r"
  proof -
    from that have a: "4096 - off_write s1 < int k" by (simp add: r o)
    from assms(5) have b: "off_write s1 \<le> 4096" by (simp add: o)
    from delayed_work_wraps [OF k_def a b] show ?thesis
      by (simp add: l o r)
  qed
  from n f w show ?thesis by (intro conjI impI)
qed

subsection \<open>Reads beyond the bytes present\<close>

text \<open>
  Claim C2, at a failing input. After \<open>init_module\<close> and one write of "ciao", so with 4
  bytes present, a read of 10 bytes into a buffer of 10 bytes returns 10, not at most
  \<open>min (10, 4)\<close>: it hands out 6 bytes of the page that nobody wrote, moves \<open>off_read\<close>
  to 10, beyond \<open>off_write = 4\<close>, and the unsigned counter \<open>numBytes\<close> wraps around to
  \<open>2 ^ 32 - 6\<close>.
\<close>

theorem read_returns_more_than_present:
  "numBytes after_ciao = 4 \<and>
   (case dev_read [True] after_ciao (replicate 10 NUL) 10 of
      (s', ubuf', r) \<Rightarrow>
        r = 10 \<and> ubuf' = ''ciao'' @ replicate 6 NUL \<and>
        off_read s' = 10 \<and> off_write s' = 4 \<and> numBytes s' = 4294967290)"
  by code_simp

subsection \<open>One buffer and one pair of counters for a minor\<close>

text \<open>
  Claim C4, at a failing input. The driver has one \<open>numBytes\<close> and one \<open>numReaders\<close>
  for a minor, not one for each flow. After a high-priority write of "ciao" the counter
  is 4; after switching to low priority and writing "ciao" again the same counter is 8;
  and a read with low priority selected returns the bytes of the high-priority write.
\<close>

theorem one_counter_for_both_priorities:
  "priority after_ciao \<and> numBytes after_ciao = 4 \<and>
   \<not> priority both_flows \<and> numBytes both_flows = 8 \<and>
   (case dev_read [True] both_flows (replicate 4 NUL) 4 of
      (s', ubuf', r) \<Rightarrow> r = 4 \<and> ubuf' = ''ciao'' \<and> numBytes s' = 4)"
  by code_simp

subsection \<open>Writing and reading back in non-blocking mode\<close>

text \<open>
  In non-blocking mode with high priority, on an empty file with equal offsets anywhere on
  the page: a write of \<open>n\<close> bytes (\<open>0 < n < 4096\<close>) that gets the lock returns \<open>n\<close>, and the
  read of \<open>n\<close> bytes that follows returns those bytes in their order and leaves the file
  empty again, also when the bytes pass the end of the page.
\<close>

lemma copy_from_user_nth:
  "i < n \<Longrightarrow> n \<le> length from \<Longrightarrow> fst (copy_from_user mem to from n) (to + i) = from ! i"
  by (simp add: copy_from_user_def Let_def)

lemma copy_from_user_other:
  "j < to \<or> to + n \<le> j \<Longrightarrow> fst (copy_from_user mem to from n) j = mem j"
  by (auto simp: copy_from_user_def Let_def)

lemma copy_to_user_fst:
  "to + n \<le> length ubuf \<Longrightarrow>
   fst (copy_to_user ubuf to mem from n) =
     take to ubuf @ map mem [from ..< from + n] @ drop (to + n) ubuf"
  by (simp add: copy_to_user_def Let_def)

lemma map_upt_eqI:
  assumes "length xs = n" and "\<And>i. i < n \<Longrightarrow> f (a + i) = xs ! i"
  shows "map f [a ..< a + n] = xs"
  using assms by (intro nth_equalityI) simp_all

lemma nonblocking_round_trip_fits:
  assumes "priority s" and "\<not> blocking s" and "0 \<le> off_write s"
    and "off_read s = off_write s" and "numBytes s = 0"
    and "length buff = n" and "0 < n" and "n < 4096" and "length ubuf = n"
    and "\<not> passes_end (off_write s) n"
  shows "\<exists>s1 s2. dev_write kz (True # r1) s buff n = Some (s1, int n) \<and>
           dev_read (True # r2) s1 ubuf n = (s2, buff, int n) \<and>
           numBytes s2 = 0 \<and> off_read s2 = off_write s2"
proof -
  define m1 where "m1 = fst (copy_from_user (stream_content s) (nat (off_write s)) buff n)"
  define s1 where "s1 = s\<lparr>off_write := off_write s + int n, stream_content := m1,
      numBytes := word_of_int (int n)\<rparr>"
  have nf: "\<not> file_is_full s n"
    using assms(5,8) by (simp add: file_is_full_iff)
  have m: "min n (length buff) = n" "min n (length ubuf) = n"
    using assms(6,9) by simp_all
  have w: "dev_write kz (True # r1) s buff n = Some (s1, int n)"
    using assms(1,2,5,7) nf
    by (simp add: dev_write_def dev_write_high_nonblocking_def write_locked_def exit_write_def
        write_copy_fits [OF assms(10)] m s1_def m1_def)
  have f: "off_write s1 = off_write s + int n" "off_read s1 = off_write s"
    "stream_content s1 = m1" "numBytes s1 = word_of_int (int n)" "\<not> blocking s1"
    using assms(2,4) by (simp_all add: s1_def)
  let ?s1' = "s1\<lparr>numReaders := numReaders s1 + 1\<rparr>"
  have np: "\<not> passes_end (off_read ?s1') n"
    using assms(10) by (simp add: f)
  have c: "map m1 [nat (off_write s) ..< nat (off_write s) + n] = buff"
    using assms(6)
  proof (rule map_upt_eqI)
    fix i assume "i < n"
    then show "m1 (nat (off_write s) + i) = buff ! i"
      using assms(6) by (simp add: m1_def copy_from_user_nth)
  qed
  have u: "fst (copy_to_user ubuf 0 m1 (nat (off_write s)) n) = buff"
    using assms(9) c by (simp add: copy_to_user_fst)
  have b: "read_nonblocking_body (True # r2) ?s1' ubuf n =
      (?s1'\<lparr>off_read := off_read ?s1' + int n\<rparr>, buff, int n)"
    using assms(7) u
    by (simp add: read_nonblocking_body_def read_copy_fits [OF np] m f)
  have r: "dev_read (True # r2) s1 ubuf n =
      (s1\<lparr>off_read := off_write s + int n, numBytes := 0\<rparr>, buff, int n)"
    using assms(7)
    by (simp add: dev_read_def read_exit_def b f)
  from w r show ?thesis
    by (intro exI conjI) (assumption+, simp_all add: f)
qed

lemma nonblocking_round_trip_wraps:
  assumes "priority s" and "\<not> blocking s" and "off_write s \<le> 4096"
    and "off_read s = off_write s" and "numBytes s = 0"
    and "length buff = n" and "n < 4096" and "length ubuf = n"
    and "passes_end (off_write s) n"
  shows "\<exists>s1 s2. dev_write kz (True # r1) s buff n = Some (s1, int n) \<and>
           dev_read (True # r2) s1 ubuf n = (s2, buff, int n) \<and>
           numBytes s2 = 0 \<and> off_read s2 = off_write s2"
proof -
  define n1 where "n1 = nat (4096 - off_write s)"
  define n2 where "n2 = n - n1"
  define ow where "ow = nat (off_write s)"
  from assms(9) have a: "0 \<le> 4096 - off_write s" "4096 - off_write s < int n"
    by (simp_all add: passes_end_def OBJECT_MAX_SIZE_def)
  with assms(7) have k: "n1 < n" "0 < n2" "n1 + n2 = n" "n2 < ow" "ow + n1 = 4096"
    "int n1 = 4096 - off_write s" "int ow = off_write s" "0 < n"
    by (simp_all add: n1_def n2_def ow_def)
  define m1 where "m1 = fst (copy_from_user (stream_content s) ow buff n1)"
  define m2 where "m2 = fst (copy_from_user m1 0 (drop n1 buff) n2)"
  define s1 where "s1 = s\<lparr>off_write := int n2, stream_content := m2,
      numBytes := word_of_int (int n)\<rparr>"
  have nf: "\<not> file_is_full s n"
    using assms(5,7) by (simp add: file_is_full_iff)
  have b: "nat (4096 - off_write s) \<le> length buff"
    using k(1) assms(6) by (simp add: n1_def)
  have mn: "min (n - n1) (length buff - n1) = n2" "min (n - n1) (length ubuf - n1) = n2"
    "min n2 (length buff - n1) = n2" "min n2 (length ubuf - n1) = n2"
    using assms(6,8) by (simp_all add: n2_def)
  have res: "4096 - off_write s + int n2 = int n"
    using k(3,6) by linarith
  have w: "dev_write kz (True # r1) s buff n = Some (s1, int n)"
    using assms(1,2,5) nf k(8)
    by (simp add: dev_write_def dev_write_high_nonblocking_def write_locked_def exit_write_def
        write_copy_wraps [OF assms(9) b] n1_def [symmetric] ow_def [symmetric] n2_def [symmetric] mn res
        m1_def [symmetric] m2_def [symmetric] s1_def)
  have f: "off_write s1 = int n2" "off_read s1 = off_write s"
    "stream_content s1 = m2" "numBytes s1 = word_of_int (int n)" "\<not> blocking s1"
    using assms(2,4) by (simp_all add: s1_def)
  let ?s1' = "s1\<lparr>numReaders := numReaders s1 + 1\<rparr>"
  have p: "passes_end (off_read ?s1') n"
    using assms(9) by (simp add: f)
  have b': "nat (4096 - off_read ?s1') \<le> length ubuf"
    using k(1) assms(8) by (simp add: f n1_def)
  have c1: "map m2 [ow ..< ow + n1] = take n1 buff"
  proof (rule map_upt_eqI)
    show "length (take n1 buff) = n1" using k(1) assms(6) by simp
    fix i assume i: "i < n1"
    with k(4) have "m2 (ow + i) = m1 (ow + i)"
      by (simp add: m2_def copy_from_user_other)
    also have "\<dots> = buff ! i"
      using i k(1) assms(6) by (simp add: m1_def copy_from_user_nth)
    finally show "m2 (ow + i) = take n1 buff ! i" using i by simp
  qed
  have c2: "map m2 [0 ..< 0 + n2] = drop n1 buff"
  proof (rule map_upt_eqI)
    show "length (drop n1 buff) = n2" using assms(6) by (simp add: n2_def)
    fix i assume i: "i < n2"
    then show "m2 (0 + i) = drop n1 buff ! i"
      unfolding m2_def using assms(6) by (intro copy_from_user_nth) (simp_all add: n2_def)
  qed
  from c2 have c2': "map m2 [0 ..< n2] = drop n1 buff" by simp
  define ubuf1 where "ubuf1 = fst (copy_to_user ubuf 0 m2 ow n1)"
  have u1: "ubuf1 = take n1 buff @ drop n1 ubuf"
    using k(1) assms(8) c1 by (simp add: ubuf1_def copy_to_user_fst)
  have l1: "length ubuf1 = n"
    using k(1) assms(6,8) by (simp add: u1)
  have "fst (copy_to_user ubuf1 n1 m2 0 n2) =
      take n1 ubuf1 @ map m2 [0 ..< 0 + n2] @ drop (n1 + n2) ubuf1"
    using l1 k(3) by (intro copy_to_user_fst) simp
  also have "\<dots> = take n1 buff @ drop n1 buff"
    using k(1,3) l1 assms(6) by (simp add: c2' u1)
  finally have u2: "fst (copy_to_user ubuf1 n1 m2 0 n2) = buff" by simp
  have ne: "off_write ?s1' - off_read ?s1' \<noteq> 0"
    using k(4,7) by (simp add: f)
  have rb: "read_nonblocking_body (True # r2) ?s1' ubuf n =
      (?s1'\<lparr>off_read := int n2\<rparr>, buff, int n)"
    using ne u2
    by (simp add: read_nonblocking_body_def read_copy_wraps [OF p b'] f
        n1_def [symmetric] ow_def [symmetric] n2_def [symmetric] mn res
        ubuf1_def [symmetric])
  have r: "dev_read (True # r2) s1 ubuf n =
      (s1\<lparr>off_read := int n2, numBytes := 0\<rparr>, buff, int n)"
    using k(8)
    by (simp add: dev_read_def read_exit_def rb f)
  from w r show ?thesis
    by (intro exI conjI) (assumption+, simp_all add: f)
qed

lemma nonblocking_round_trip:
  assumes "priority s" and "\<not> blocking s" and "0 \<le> off_write s" and "off_write s \<le> 4096"
    and "off_read s = off_write s" and "numBytes s = 0"
    and "length buff = n" and "0 < n" and "n < 4096" and "length ubuf = n"
  shows "\<exists>s1 s2. dev_write kz (True # r1) s buff n = Some (s1, int n) \<and>
           dev_read (True # r2) s1 ubuf n = (s2, buff, int n) \<and>
           numBytes s2 = 0 \<and> off_read s2 = off_write s2"
proof (cases "passes_end (off_write s) n")
  case True
  with assms show ?thesis by (intro nonblocking_round_trip_wraps)
next
  case False
  with assms show ?thesis by (intro nonblocking_round_trip_fits)
qed

subsection \<open>Writing "ciao" and reading it back in blocking mode\<close>

text \<open>
  The steps of the run: a write and a read of \<open>n\<close> bytes after \<open>init_module\<close> leave an
  empty file with both offsets at \<open>n\<close>; a write of "ciao" at offset 4094 passes the end
  of the page and leaves \<open>off_write = 2\<close>; and a blocking read that finds
  \<open>off_write \<le> off_read\<close> waits for \<open>off_write - off_read > 0\<close>, which no other thread
  brings about, and returns 0 bytes.
\<close>

lemma init_fill:
  assumes "length buff = n" and "n < 4096"
  shows "\<exists>s1. dev_write True [True] (init_module page) buff n = Some (s1, int n) \<and>
           off_read s1 = 0 \<and> off_write s1 = int n \<and> numBytes s1 = word_of_nat n \<and>
           priority s1 \<and> blocking s1"
proof -
  let ?s = "init_module page"
  have np: "\<not> passes_end (off_write ?s) n"
    using assms(2) by (simp add: passes_end_def init_module_def OBJECT_MAX_SIZE_def)
  have nf: "\<not> file_is_full ?s n"
    using assms(2) by (simp add: file_is_full_iff init_module_def)
  have m: "min n (length buff) = n" using assms(1) by simp
  have "write_locked ?s buff n =
      exit_write (?s\<lparr>off_write := off_write ?s + int n,
          stream_content := fst (copy_from_user (stream_content ?s) (nat (off_write ?s)) buff n)\<rparr>,
        int n)"
    using nf by (simp add: write_locked_def write_copy_fits [OF np] m)
  then show ?thesis
    by (simp add: dev_write_def exit_write_def init_module_def)
qed

lemma blocking_drain:
  assumes "blocking s" and "off_read s = 0" and "off_write s = int n" and "0 < n" and "n < 4096"
    and "numBytes s = word_of_nat n" and "length ubuf = n"
  shows "\<exists>s2 u. dev_read [True] s ubuf n = (s2, u, int n) \<and>
           off_read s2 = int n \<and> off_write s2 = int n \<and> numBytes s2 = 0 \<and>
           priority s2 = priority s \<and> blocking s2"
proof -
  let ?s1 = "s\<lparr>numReaders := numReaders s + 1\<rparr>"
  have np: "\<not> passes_end (off_read ?s1) n"
    using assms(2,5) by (simp add: passes_end_def OBJECT_MAX_SIZE_def)
  have m: "min n (length ubuf) = n" using assms(7) by simp
  have "read_blocking_loop [True] ?s1 ubuf n 0 0 =
      (?s1\<lparr>off_read := off_read ?s1 + int n\<rparr>,
       fst (copy_to_user ubuf 0 (stream_content ?s1) (nat (off_read ?s1)) n), int n)"
    using assms(2,3,4)
    by (simp add: wait_event_timeout_def read_copy_fits [OF np] m)
  then show ?thesis
    using assms(1,2,3,4,6)
    by (simp add: dev_read_def read_exit_def)
qed

lemma write_ciao_at_4094:
  assumes "priority s" and "blocking s" and "off_write s = 4094" and "numBytes s = 0"
  shows "\<exists>s3. dev_write True [True] s ''ciao'' 4 = Some (s3, 4) \<and>
           off_read s3 = off_read s \<and> off_write s3 = 2 \<and> numBytes s3 = 4 \<and>
           blocking s3 \<and> priority s3"
proof -
  have p: "passes_end (off_write s) 4"
    using assms(3) by (simp add: passes_end_def OBJECT_MAX_SIZE_def)
  have b: "nat (4096 - off_write s) \<le> length ''ciao''"
    using assms(3) by simp
  have nf: "\<not> file_is_full s 4"
    using assms(4) by (simp add: file_is_full_iff)
  show ?thesis
    using assms nf
    by (simp add: dev_write_def write_locked_def exit_write_def write_copy_wraps [OF p b])
qed

lemma blocking_read_offsets_not_ahead:
  assumes "blocking s" and "off_write s \<le> off_read s"
  shows "dev_read trylocks s ubuf len = (s, ubuf, 0)"
proof -
  let ?s1 = "s\<lparr>numReaders := numReaders s + 1\<rparr>"
  have "read_blocking_loop trylocks ?s1 ubuf len 0 0 = (?s1, ubuf, 0)"
    using assms(2) by (cases trylocks) (simp_all add: wait_event_timeout_def)
  with assms(1) show ?thesis
    by (simp add: dev_read_def read_exit_def)
qed

text \<open>
  Claim C1, at a failing input. In the configuration of \<open>init_module\<close> (high priority,
  blocking): write 4094 bytes and read them back, which empties the flow with both
  offsets at 4094; write "ciao", which returns 4 and counts 4 bytes present; then every
  read of 4 bytes, whatever the attempts at the lock and the user buffer, returns 0 bytes
  and leaves the state and the user buffer as they were. The non-blocking branch of
  \<open>dev_read\<close> tests \<open>off_write - off_read == 0\<close> instead and returns the bytes.
\<close>

theorem blocking_read_misses_wrapped_bytes:
  assumes "length buff = 4094" and "length ubuf = 4094"
  shows "\<exists>s1 s2 s3 u.
           dev_write True [True] (init_module page) buff 4094 = Some (s1, 4094) \<and>
           dev_read [True] s1 ubuf 4094 = (s2, u, 4094) \<and>
           priority s2 \<and> numBytes s2 = 0 \<and> off_read s2 = off_write s2 \<and>
           dev_write True [True] s2 ''ciao'' 4 = Some (s3, 4) \<and> numBytes s3 = 4 \<and>
           (\<forall>trylocks ubuf'. dev_read trylocks s3 ubuf' 4 = (s3, ubuf', 0))"
proof -
  from init_fill [OF assms(1), of page]
  obtain s1 where s1: "dev_write True [True] (init_module page) buff 4094 = Some (s1, 4094)"
    "off_read s1 = 0" "off_write s1 = 4094" "numBytes s1 = 4094" "priority s1" "blocking s1"
    by auto
  from blocking_drain [OF s1(6,2), of 4094 ubuf] s1(3,4,5) assms(2)
  obtain s2 u where s2: "dev_read [True] s1 ubuf 4094 = (s2, u, 4094)"
    "off_read s2 = 4094" "off_write s2 = 4094" "numBytes s2 = 0" "priority s2" "blocking s2"
    by auto
  from write_ciao_at_4094 [OF s2(5,6,3,4)] s2(2)
  obtain s3 where s3: "dev_write True [True] s2 ''ciao'' 4 = Some (s3, 4)"
    "off_read s3 = 4094" "off_write s3 = 2" "numBytes s3 = 4" "blocking s3"
    by auto
  have "dev_read trylocks s3 ubuf' 4 = (s3, ubuf', 0)" for trylocks ubuf'
    using s3(5) by (rule blocking_read_offsets_not_ahead) (simp add: s3)
  with s1(1) s2(1,5,4,2,3) s3(1,4) show ?thesis
    by (intro exI [of _ s1] exI [of _ s2] exI [of _ s3] exI [of _ u]) simp
qed

subsection \<open>The example states\<close>

lemmas ioctl_cmds = IOWR_PRIORITYSTATE_def IOWR_BLOCKINGSTATE_def IOWR_TIMEOUT_def

lemma low_state_eq: "low_state = (init_module blank_page)\<lparr>priority := False\<rparr>"
  by (simp add: low_state_def dev_ioctl_def ioctl_cmds)

lemma low_after_ciao_write:
  "dev_write True [True] low_state ''ciao'' 4 = Some (low_after_ciao, 4)"
  by (simp add: low_after_ciao_def low_state_eq dev_write_def dev_write_low_def
      init_module_def file_is_full_def OBJECT_MAX_SIZE_def Let_def)

lemma low_after_ciao_works:
  "works low_after_ciao = [\<lparr>copiedBytes = 4, buffer = ''ciao'' @ [NUL]\<rparr>]"
  by (simp add: low_after_ciao_def low_state_eq dev_write_def dev_write_low_def
      init_module_def file_is_full_def OBJECT_MAX_SIZE_def Let_def task_buffer_def)

lemma after_ciao_write:
  "dev_write True [True] (init_module blank_page) ''ciao'' 4 = Some (after_ciao, 4)"
  by (simp add: after_ciao_def dev_write_def write_locked_def exit_write_def write_copy_def
      copy_from_user_def passes_end_def file_is_full_def init_module_def OBJECT_MAX_SIZE_def
      Let_def)

lemma low_after_ciao_commit:
  "delayed_work True (last (works low_after_ciao)) low_after_ciao =
     Some (low_after_ciao\<lparr>off_write := 4,
             stream_content := string_copy (stream_content low_state) 0 ''ciao''\<rparr>)"
proof -
  have o: "off_write low_after_ciao = 0" "stream_content low_after_ciao = stream_content low_state"
    by (simp_all add: low_after_ciao_def low_state_eq dev_write_def dev_write_low_def
        init_module_def file_is_full_def OBJECT_MAX_SIZE_def Let_def)
  have l: "last (works low_after_ciao) = \<lparr>copiedBytes = int 4, buffer = task_buffer ''ciao'' 4\<rparr>"
    by (simp add: low_after_ciao_works task_buffer_def)
  have "int 4 \<le> 4096 - off_write low_after_ciao" by (simp add: o)
  from delayed_work_fits [OF _ this, of 4 "''ciao''" True] show ?thesis
    by (simp add: l o)
qed

text \<open>
  A write that would fill the file exactly: on an empty file and a non-blocking write of
  4096 bytes, \<open>numBytes + len\<close> equals the capacity, not more, and the write returns 0
  and changes nothing.
\<close>

theorem nonblocking_write_full_test_counterexample:
  "unat (numBytes nonblocking_state) + 4096 = 4096 \<and>
   dev_write True [True] nonblocking_state (filler 4096) 4096 =
     Some (nonblocking_state, 0)"
  by (simp add: nonblocking_state_def dev_ioctl_def ioctl_cmds init_module_def
      dev_write_def dev_write_high_nonblocking_def write_locked_def file_is_full_def
      OBJECT_MAX_SIZE_def)

text \<open>
  A state in which the count is not the distance of the offsets: after a low-priority
  write of "ciao" to the empty file the offsets are equal, the buffer is not full, and
  the count is 4.
\<close>

theorem reservation_breaks_offset_count:
  "off_read low_after_ciao = off_write low_after_ciao \<and>
   unat (numBytes low_after_ciao) = 4 \<and>
   (off_write low_after_ciao - off_read low_after_ciao) mod OBJECT_MAX_SIZE = 0 \<and>
   \<not> ring_inv low_after_ciao"
  by (simp add: low_after_ciao_def low_state_eq dev_write_def dev_write_low_def
      init_module_def file_is_full_def OBJECT_MAX_SIZE_def Let_def ring_inv_def)

text \<open>
  A byte behind a zero byte that reaches the page: for the payload "a", zero byte, "b"
  written two bytes before the end of the page, the worker copies the byte "b", which
  follows the first zero byte, to the start of the page.
\<close>

theorem zero_byte_split_counterexample:
  "bytes_before_zero zero_split_payload = [CHR ''a''] \<and>
   stream_content low_at_end_after_write 0 = NUL \<and>
   stream_content (the (delayed_work True (last (works low_at_end_after_write))
                          low_at_end_after_write)) 0 = CHR ''b''"
  by code_simp

subsection \<open>The theorems at concrete inputs\<close>

theorem blocking_read_misses_wrapped_bytes_witness:
  "length (filler 4094) = 4094 \<and>
   (\<exists>s1 s2 s3 u.
      dev_write True [True] (init_module blank_page) (filler 4094) 4094 = Some (s1, 4094) \<and>
      dev_read [True] s1 (filler 4094) 4094 = (s2, u, 4094) \<and>
      priority s2 \<and> numBytes s2 = 0 \<and> off_read s2 = off_write s2 \<and>
      dev_write True [True] s2 ''ciao'' 4 = Some (s3, 4) \<and> numBytes s3 = 4 \<and>
      (\<forall>trylocks ubuf'. dev_read trylocks s3 ubuf' 4 = (s3, ubuf', 0)))"
proof -
  have l: "length (filler 4094) = 4094" by (simp add: filler_def)
  from l blocking_read_misses_wrapped_bytes [OF l l, of blank_page] show ?thesis
    by (rule conjI)
qed

theorem low_write_reserves_then_worker_copies_witness:
  "\<not> priority low_state \<and>
   dev_write True [True] low_state ''ciao'' 4 = Some (low_after_ciao, 4) \<and>
   works low_after_ciao \<noteq> works low_state \<and>
   works low_after_ciao = works low_state @ [\<lparr>copiedBytes = 4, buffer = task_buffer ''ciao'' 4\<rparr>] \<and>
   numBytes low_after_ciao = numBytes low_state + 4 \<and>
   stream_content low_after_ciao = stream_content low_state \<and>
   off_write low_after_ciao = off_write low_state \<and>
   delayed_work True (last (works low_after_ciao)) low_after_ciao =
     Some (low_after_ciao\<lparr>off_write := 4,
             stream_content := string_copy (stream_content low_state) 0 ''ciao''\<rparr>) \<and>
   numBytes (low_after_ciao\<lparr>off_write := 4,
             stream_content := string_copy (stream_content low_state) 0 ''ciao''\<rparr>) =
     numBytes low_after_ciao"
proof -
  have a: "\<not> priority low_state"
    by (simp add: low_state_eq)
  have b: "works low_after_ciao \<noteq> works low_state"
    by (simp add: low_after_ciao_works) (simp add: low_state_eq init_module_def)
  from low_write_reserves_then_worker_copies
    [of low_state True "[True]" "''ciao''" 4 low_after_ciao 4 True
      "last (works low_after_ciao)" low_after_ciao
      "low_after_ciao\<lparr>off_write := 4,
             stream_content := string_copy (stream_content low_state) 0 ''ciao''\<rparr>"]
    a low_after_ciao_write b low_after_ciao_commit
  show ?thesis by simp
qed

theorem nonblocking_write_full_test_witness:
  "\<not> blocking nonblocking_state \<and> priority nonblocking_state \<and>
   4096 \<le> length (filler 4096) \<and>
   unat (numBytes nonblocking_state) + 4096 = 4096 \<and>
   dev_write True [True] nonblocking_state (filler 4096) 4096 = Some (nonblocking_state, 0) \<and>
   4 \<le> length ''ciao'' \<and>
   unat (numBytes nonblocking_state) + 4 < 4096 \<and>
   (\<exists>s'. dev_write True [True] nonblocking_state ''ciao'' 4 = Some (s', 4) \<and>
         unat (numBytes s') = 4 \<and> unat (numBytes s') \<le> 4095)"
proof -
  have a: "\<not> blocking nonblocking_state" and p: "priority nonblocking_state"
    and n: "numBytes nonblocking_state = 0"
    by (simp_all add: nonblocking_state_def dev_ioctl_def ioctl_cmds init_module_def)
  have l: "4 \<le> length ''ciao''" by simp
  have lf: "4096 \<le> length (filler 4096)" by (simp add: filler_def)
  from p have pk: "priority nonblocking_state \<or> True" ..
  from nonblocking_write_full_test [OF a lf pk, of "[]"]
  have f: "dev_write True [True] nonblocking_state (filler 4096) 4096 = Some (nonblocking_state, 0)"
    by (simp add: n)
  from nonblocking_write_full_test [OF a l pk, of "[]"]
  have r: "\<exists>s'. dev_write True [True] nonblocking_state ''ciao'' 4 = Some (s', 4) \<and>
         unat (numBytes s') = 4 \<and> unat (numBytes s') \<le> 4095"
    by (simp add: n)
  from a p lf f l r show ?thesis by (simp add: n)
qed

theorem reach_ring_inv_witness:
  "reach drained \<and> ring_inv drained \<and> off_read drained = off_write drained \<and>
   numBytes drained = 0"
proof -
  have "reach (init_module blank_page)" by (rule reach.init)
  moreover have "priority (init_module blank_page)" by (simp add: init_module_def)
  ultimately have r1: "reach after_ciao"
    using after_ciao_write by (rule reach.write_high)
  have n: "4 \<le> unat (numBytes after_ciao)" by code_simp
  have u: "blocking after_ciao \<longrightarrow> 4 \<le> length (replicate 4 NUL)" by simp
  have "dev_read [True] after_ciao (replicate 4 NUL) 4 =
      (drained, snd (dev_read [True] after_ciao (replicate 4 NUL) 4))"
    by (simp add: drained_def)
  then have d: "dev_read [True] after_ciao (replicate 4 NUL) 4 =
      (drained, fst (snd (dev_read [True] after_ciao (replicate 4 NUL) 4)),
       snd (snd (dev_read [True] after_ciao (replicate 4 NUL) 4)))"
    by simp
  have r2: "reach drained"
    using r1 n u d by (rule reach.read)
  have e: "off_read drained = off_write drained" by code_simp
  from reach_ring_inv [OF r2] r2 e show ?thesis by simp
qed

theorem delayed_work_string_copy_witness:
  "\<not> priority low_state \<and>
   dev_write True [True] low_state ''ciao'' 4 = Some (low_after_ciao, 4) \<and>
   works low_after_ciao \<noteq> works low_state \<and>
   numBytes low_after_ciao = numBytes low_state + 4 \<and>
   delayed_work True (last (works low_after_ciao)) low_after_ciao =
     Some (low_after_ciao\<lparr>off_write := 4,
             stream_content := string_copy (stream_content low_state) 0 ''ciao''\<rparr>)"
proof -
  have a: "\<not> priority low_state"
    by (simp add: low_state_eq)
  have b: "works low_after_ciao \<noteq> works low_state"
    by (simp add: low_after_ciao_works) (simp add: low_state_eq init_module_def)
  have c: "off_write low_state = 0"
    by (simp add: low_state_eq init_module_def)
  from delayed_work_string_copy [OF a low_after_ciao_write b, of True] a low_after_ciao_write b
  show ?thesis by (simp add: c)
qed

end
